theory Spec2Isabelle
  imports Main "HOL-Library.Word"
begin

section \<open>Runtime-filter slots of a hash-join build side\<close>

text \<open>
  Shallow embedding of \<^verbatim>\<open>be/src/exprs/runtime_filter_slots.h\<close>, class
  \<^verbatim>\<open>VRuntimeFilterSlots\<close>. The class holds a vector of shared pointers to
  \<^verbatim>\<open>IRuntimeFilter\<close> objects; the objects are mutated through the pointers.
  The embedding keeps the pointers: a handle is an address, the objects live in a heap
  (a function from addresses to handle values), and the group is a list of addresses, so
  that the same object listed twice is the same object in the model too.

  Calls on collaborators whose effect the class never reads back
  (\<^verbatim>\<open>set_finish_dependency\<close>, \<^verbatim>\<open>send_filter_size\<close>,
  \<^verbatim>\<open>init_bloom_filter\<close>, \<^verbatim>\<open>insert_batch\<close>, \<^verbatim>\<open>publish\<close>),
  and the column lookups in the block, are recorded in a trace, oldest call first. The \<^verbatim>\<open>Status\<close> a collaborator
  returns is not decided by this class: it is a parameter of the model, a function of the
  calls made so far.
\<close>

subsection \<open>Data\<close>

type_synonym addr = nat
type_synonym ctx_ref = nat
type_synonym dep_ref = nat
type_synonym uint64 = "64 word"
type_synonym column = "int list"
type_synonym block = "column list"

text \<open>
  Modelled from the spec: the enumeration \<^verbatim>\<open>RuntimeFilterType\<close> is declared
  outside the source file. The three constructors the source names, and the value-range
  (min/max) filter of the source's comment and of the spec's data model.
\<close>

datatype RuntimeFilterType = IN_FILTER | MINMAX_FILTER | BLOOM_FILTER | IN_OR_BLOOM_FILTER

text \<open>
  \<^verbatim>\<open>Status\<close>: \<open>OK\<close>, the \<^verbatim>\<open>Status::Aborted\<close> the source builds itself,
  and \<open>Failure\<close> for any other non-OK status a collaborator may return.
\<close>

datatype Status = OK | Aborted string | Failure string

text \<open>
  Modelled from the spec: the class \<^verbatim>\<open>IRuntimeFilter\<close> is declared outside the
  source file. A handle carries what the source reads through its accessors
  (\<^verbatim>\<open>filter_id()\<close>, \<^verbatim>\<open>expr_order()\<close>, \<^verbatim>\<open>type()\<close>,
  \<^verbatim>\<open>get_real_type()\<close>, \<^verbatim>\<open>get_ignored()\<close>, \<^verbatim>\<open>get_disabled()\<close>,
  \<^verbatim>\<open>need_sync_filter_size()\<close>, \<^verbatim>\<open>get_synced_size()\<close>,
  \<^verbatim>\<open>get_shared_context_ref()\<close>), the attributes of the spec's RuntimeFilterHandle.
\<close>

record IRuntimeFilter =
  filter_id :: int
  expr_order :: int
  filter_type :: RuntimeFilterType
  real_type :: RuntimeFilterType
  ignored :: bool
  disabled :: bool
  need_sync_filter_size :: bool
  synced_size :: uint64
  shared_context_ref :: ctx_ref

datatype event =
    Rf_set_finish_dependency addr dep_ref
  | Rf_send_filter_size addr uint64
  | Rf_change_to_bloom_filter addr
  | Rf_init_bloom_filter addr uint64
  | Block_get_by_position int
  | Rf_insert_batch addr column nat
  | Rf_publish addr bool

type_synonym status_oracle = "event list \<Rightarrow> Status"

record world =
  heap :: "addr \<Rightarrow> IRuntimeFilter"
  trace :: "event list"

text \<open>
  The object itself: the vectors \<^verbatim>\<open>_build_expr_context\<close> and
  \<^verbatim>\<open>_runtime_filters\<close>. Modelled from the spec: the class
  \<^verbatim>\<open>VExprContext\<close> is declared outside the source file; the source only reads
  \<^verbatim>\<open>get_last_result_column_id()\<close> of a context, so a context is that column id.
\<close>

record VRuntimeFilterSlots =
  build_expr_context :: "int list"
  runtime_filters :: "addr list"

text \<open>
  \<^verbatim>\<open>RuntimeState\<close>: the source reads \<^verbatim>\<open>runtime_filter_max_in_num()\<close> and
  compares it with a \<^verbatim>\<open>uint64_t\<close>; the field is the threshold as that comparison
  sees it. Elsewhere the source only hands the pointer on to the handle
  (\<^verbatim>\<open>send_filter_size\<close>, \<^verbatim>\<open>publish\<close>) or does not use it
  (\<^verbatim>\<open>disable_meaningless_filters\<close>); those operations take no state here.
\<close>

record RuntimeState =
  runtime_filter_max_in_num :: uint64

type_synonym shared_context = "int \<rightharpoonup> ctx_ref"

subsection \<open>Operations of a handle\<close>

text \<open>
  Modelled from the spec: the member functions of \<^verbatim>\<open>IRuntimeFilter\<close> are defined
  outside the source file. \<^verbatim>\<open>set_ignored\<close> and \<^verbatim>\<open>set_disabled\<close> set the
  flag; \<^verbatim>\<open>change_to_bloom_filter\<close> is the transition of the effective type from
  hybrid to approximate filter, when it succeeds; the other calls are recorded in the trace.
\<close>

definition upd :: "addr \<Rightarrow> (IRuntimeFilter \<Rightarrow> IRuntimeFilter) \<Rightarrow> world \<Rightarrow> world" where
  "upd a g w = w\<lparr>heap := (heap w)(a := g (heap w a))\<rparr>"

definition record_call :: "event \<Rightarrow> world \<Rightarrow> world" where
  "record_call e w = w\<lparr>trace := trace w @ [e]\<rparr>"

definition rf_call :: "status_oracle \<Rightarrow> event \<Rightarrow> world \<Rightarrow> Status \<times> world" where
  "rf_call orc e w = (orc (trace w @ [e]), record_call e w)"

definition set_ignored :: "addr \<Rightarrow> world \<Rightarrow> world" where
  "set_ignored a w = upd a (\<lambda>f. f\<lparr>ignored := True\<rparr>) w"

definition set_disabled :: "addr \<Rightarrow> world \<Rightarrow> world" where
  "set_disabled a w = upd a (\<lambda>f. f\<lparr>disabled := True\<rparr>) w"

definition set_finish_dependency :: "addr \<Rightarrow> dep_ref \<Rightarrow> world \<Rightarrow> world" where
  "set_finish_dependency a d w = record_call (Rf_set_finish_dependency a d) w"

definition rf_send_filter_size :: "status_oracle \<Rightarrow> addr \<Rightarrow> uint64 \<Rightarrow> world \<Rightarrow> Status \<times> world" where
  "rf_send_filter_size orc a n w = rf_call orc (Rf_send_filter_size a n) w"

definition change_to_bloom_filter :: "status_oracle \<Rightarrow> addr \<Rightarrow> world \<Rightarrow> Status \<times> world" where
  "change_to_bloom_filter orc a w =
     (let (st, w') = rf_call orc (Rf_change_to_bloom_filter a) w
      in if st = OK then (OK, upd a (\<lambda>f. f\<lparr>real_type := BLOOM_FILTER\<rparr>) w') else (st, w'))"

definition init_bloom_filter :: "status_oracle \<Rightarrow> addr \<Rightarrow> uint64 \<Rightarrow> world \<Rightarrow> Status \<times> world" where
  "init_bloom_filter orc a n w = rf_call orc (Rf_init_bloom_filter a n) w"

definition insert_batch :: "addr \<Rightarrow> column \<Rightarrow> nat \<Rightarrow> world \<Rightarrow> world" where
  "insert_batch a col k w = record_call (Rf_insert_batch a col k) w"

definition rf_publish :: "status_oracle \<Rightarrow> addr \<Rightarrow> bool \<Rightarrow> world \<Rightarrow> Status \<times> world" where
  "rf_publish orc a publish_local w = rf_call orc (Rf_publish a publish_local) w"

subsection \<open>Unchecked reads\<close>

text \<open>
  The source indexes \<^verbatim>\<open>_build_expr_context\<close> with \<^verbatim>\<open>operator[]\<close> of
  \<^verbatim>\<open>std::vector\<close>, which tests nothing: inside the vector the read yields the
  element, outside it the behaviour is undefined and the source has no branch for it.
  \<open>unchecked_nth stray xs i\<close> is that read, with what a read outside the vector yields
  given as the parameter \<open>stray\<close>.

  Modelled from the spec: \<^verbatim>\<open>Block::get_by_position\<close> is outside the source
  file. A block is the list of its columns, and the lookup is a call on the block, recorded
  in the trace, that the source does not guard either: it yields the column at the
  position, and outside the block what the parameter \<open>stray_column\<close> says.
\<close>

record stray_reads =
  stray_column_id :: int
  stray_column :: column

definition unchecked_nth :: "'a \<Rightarrow> 'a list \<Rightarrow> int \<Rightarrow> 'a" where
  "unchecked_nth stray xs i = (if 0 \<le> i \<and> i < int (length xs) then xs ! nat i else stray)"

definition get_last_result_column_id :: "stray_reads \<Rightarrow> VRuntimeFilterSlots \<Rightarrow> int \<Rightarrow> int" where
  "get_last_result_column_id u slots e =
     unchecked_nth (stray_column_id u) (build_expr_context slots) e"

definition get_by_position :: "stray_reads \<Rightarrow> block \<Rightarrow> int \<Rightarrow> world \<Rightarrow> column \<times> world" where
  "get_by_position u b position w =
     (unchecked_nth (stray_column u) b position, record_call (Block_get_by_position position) w)"

subsection \<open>send_filter_size\<close>

fun register_dependency :: "dep_ref \<Rightarrow> addr list \<Rightarrow> world \<Rightarrow> world" where
  "register_dependency d [] w = w"
| "register_dependency d (a # as) w =
     register_dependency d as
       (if need_sync_filter_size (heap w a) then set_finish_dependency a d w else w)"

fun send_sizes :: "status_oracle \<Rightarrow> uint64 \<Rightarrow> addr list \<Rightarrow> world \<Rightarrow> Status \<times> world" where
  "send_sizes orc n [] w = (OK, w)"
| "send_sizes orc n (a # as) w =
     (if need_sync_filter_size (heap w a)
      then (let (st, w') = rf_send_filter_size orc a n w
            in if st \<noteq> OK then (st, w') else send_sizes orc n as w')
      else send_sizes orc n as w)"

definition send_filter_size ::
  "status_oracle \<Rightarrow> VRuntimeFilterSlots \<Rightarrow> uint64 \<Rightarrow> dep_ref \<Rightarrow> world \<Rightarrow> Status \<times> world" where
  "send_filter_size orc slots hash_table_size dependency w =
     (if runtime_filters slots = [] then (OK, w)
      else send_sizes orc hash_table_size (runtime_filters slots)
             (register_dependency dependency (runtime_filters slots) w))"

subsection \<open>get_real_size\<close>

definition get_real_size :: "IRuntimeFilter \<Rightarrow> uint64 \<Rightarrow> uint64" where
  "get_real_size f hash_table_size =
     (if need_sync_filter_size f then synced_size f else hash_table_size)"

subsection \<open>disable_meaningless_filters\<close>

fun dedup_in_filters :: "addr list \<Rightarrow> int set \<Rightarrow> world \<Rightarrow> int set \<times> world" where
  "dedup_in_filters [] has_in_filter w = (has_in_filter, w)"
| "dedup_in_filters (a # as) has_in_filter w =
     (if ignored (heap w a) \<or> disabled (heap w a) then dedup_in_filters as has_in_filter w
      else if real_type (heap w a) \<noteq> IN_FILTER then dedup_in_filters as has_in_filter w
      else if \<not> need_sync_filter_size (heap w a) \<and> filter_type (heap w a) = IN_OR_BLOOM_FILTER
        then dedup_in_filters as has_in_filter w
      else if expr_order (heap w a) \<in> has_in_filter
        then dedup_in_filters as has_in_filter (set_disabled a w)
      else dedup_in_filters as (insert (expr_order (heap w a)) has_in_filter) w)"

fun disable_dominated :: "addr list \<Rightarrow> int set \<Rightarrow> world \<Rightarrow> world" where
  "disable_dominated [] has_in_filter w = w"
| "disable_dominated (a # as) has_in_filter w =
     (if ignored (heap w a) \<or> disabled (heap w a) then disable_dominated as has_in_filter w
      else if real_type (heap w a) = IN_FILTER \<or> expr_order (heap w a) \<notin> has_in_filter
        then disable_dominated as has_in_filter w
      else disable_dominated as has_in_filter (set_disabled a w))"

definition disable_meaningless_filters :: "VRuntimeFilterSlots \<Rightarrow> world \<Rightarrow> Status \<times> world" where
  "disable_meaningless_filters slots w =
     (let (has_in_filter, w1) = dedup_in_filters (runtime_filters slots) {} w
      in (OK, disable_dominated (runtime_filters slots) has_in_filter w1))"

subsection \<open>ignore_all_filters, disable_all_filters\<close>

fun ignore_each :: "addr list \<Rightarrow> world \<Rightarrow> world" where
  "ignore_each [] w = w"
| "ignore_each (a # as) w = ignore_each as (set_ignored a w)"

fun disable_each :: "addr list \<Rightarrow> world \<Rightarrow> world" where
  "disable_each [] w = w"
| "disable_each (a # as) w = disable_each as (set_disabled a w)"

definition ignore_all_filters :: "VRuntimeFilterSlots \<Rightarrow> world \<Rightarrow> Status \<times> world" where
  "ignore_all_filters slots w = (OK, ignore_each (runtime_filters slots) w)"

definition disable_all_filters :: "VRuntimeFilterSlots \<Rightarrow> world \<Rightarrow> Status \<times> world" where
  "disable_all_filters slots w = (OK, disable_each (runtime_filters slots) w)"

subsection \<open>init_filters\<close>

definition init_filter ::
  "status_oracle \<Rightarrow> RuntimeState \<Rightarrow> uint64 \<Rightarrow> addr \<Rightarrow> world \<Rightarrow> Status \<times> world" where
  "init_filter orc state local_hash_table_size a w =
     (let (st1, w1) =
            (if filter_type (heap w a) = IN_OR_BLOOM_FILTER \<and>
                get_real_size (heap w a) local_hash_table_size > runtime_filter_max_in_num state
             then change_to_bloom_filter orc a w else (OK, w))
      in if st1 \<noteq> OK then (st1, w1)
         else if real_type (heap w1 a) = BLOOM_FILTER
           then init_bloom_filter orc a (get_real_size (heap w1 a) local_hash_table_size) w1
         else (OK, w1))"

fun init_each ::
  "status_oracle \<Rightarrow> RuntimeState \<Rightarrow> uint64 \<Rightarrow> addr list \<Rightarrow> world \<Rightarrow> Status \<times> world" where
  "init_each orc state n [] w = (OK, w)"
| "init_each orc state n (a # as) w =
     (if ignored (heap w a) then init_each orc state n as w
      else (let (st, w') = init_filter orc state n a w
            in if st \<noteq> OK then (st, w') else init_each orc state n as w'))"

definition init_filters ::
  "status_oracle \<Rightarrow> VRuntimeFilterSlots \<Rightarrow> RuntimeState \<Rightarrow> uint64 \<Rightarrow> world \<Rightarrow> Status \<times> world" where
  "init_filters orc slots state local_hash_table_size w =
     init_each orc state local_hash_table_size (runtime_filters slots) w"

subsection \<open>insert\<close>

text \<open>
  \<^verbatim>\<open>insert\<close> returns nothing and has no failure path of its own: for every
  handle it reads the column id, looks the column up in the block, and only then reads the
  flags.
\<close>

fun insert_each :: "stray_reads \<Rightarrow> VRuntimeFilterSlots \<Rightarrow> block \<Rightarrow> addr list \<Rightarrow> world \<Rightarrow> world" where
  "insert_each u slots b [] w = w"
| "insert_each u slots b (a # as) w =
     (let result_column_id = get_last_result_column_id u slots (expr_order (heap w a));
          (col, w1) = get_by_position u b result_column_id w
      in if ignored (heap w1 a) \<or> disabled (heap w1 a) then insert_each u slots b as w1
         else insert_each u slots b as (insert_batch a col 1 w1))"

definition insert_block :: "stray_reads \<Rightarrow> VRuntimeFilterSlots \<Rightarrow> block \<Rightarrow> world \<Rightarrow> world" where
  "insert_block u slots b w = insert_each u slots b (runtime_filters slots) w"

subsection \<open>publish\<close>

fun publish_each :: "status_oracle \<Rightarrow> bool \<Rightarrow> addr list \<Rightarrow> world \<Rightarrow> Status \<times> world" where
  "publish_each orc publish_local [] w = (OK, w)"
| "publish_each orc publish_local (a # as) w =
     (let (st, w') = rf_publish orc a publish_local w
      in if st \<noteq> OK then (st, w') else publish_each orc publish_local as w')"

definition publish :: "status_oracle \<Rightarrow> VRuntimeFilterSlots \<Rightarrow> bool \<Rightarrow> world \<Rightarrow> Status \<times> world" where
  "publish orc slots publish_local w = publish_each orc publish_local (runtime_filters slots) w"

subsection \<open>copy_to_shared_context, copy_from_shared_context\<close>

text \<open>
  The message of \<^verbatim>\<open>Status::Aborted("invalid runtime filter id: {}", filter_id)\<close>:
  the identity is an \<^verbatim>\<open>int\<close>, printed in decimal.
\<close>

fun dec_nat :: "nat \<Rightarrow> string" where
  "dec_nat n =
     (if n < 10 then [''0123456789'' ! n]
      else dec_nat (n div 10) @ [''0123456789'' ! (n mod 10)])"

declare dec_nat.simps [simp del]

definition dec_int :: "int \<Rightarrow> string" where
  "dec_int i = (if i < 0 then CHR ''-'' # dec_nat (nat (- i)) else dec_nat (nat i))"

definition invalid_runtime_filter_id :: "int \<Rightarrow> Status" where
  "invalid_runtime_filter_id i = Aborted (''invalid runtime filter id: '' @ dec_int i)"

fun copy_to_each :: "addr list \<Rightarrow> world \<Rightarrow> shared_context \<Rightarrow> shared_context" where
  "copy_to_each [] w context = context"
| "copy_to_each (a # as) w context =
     copy_to_each as w (context(filter_id (heap w a) \<mapsto> shared_context_ref (heap w a)))"

definition copy_to_shared_context ::
  "VRuntimeFilterSlots \<Rightarrow> world \<Rightarrow> shared_context \<Rightarrow> shared_context" where
  "copy_to_shared_context slots w context = copy_to_each (runtime_filters slots) w context"

fun copy_from_each :: "shared_context \<Rightarrow> addr list \<Rightarrow> world \<Rightarrow> Status \<times> world" where
  "copy_from_each context [] w = (OK, w)"
| "copy_from_each context (a # as) w =
     (case context (filter_id (heap w a)) of
        None \<Rightarrow> (invalid_runtime_filter_id (filter_id (heap w a)), w)
      | Some r \<Rightarrow> copy_from_each context as (upd a (\<lambda>f. f\<lparr>shared_context_ref := r\<rparr>) w))"

definition copy_from_shared_context ::
  "VRuntimeFilterSlots \<Rightarrow> shared_context \<Rightarrow> world \<Rightarrow> Status \<times> world" where
  "copy_from_shared_context slots context w = copy_from_each context (runtime_filters slots) w"

subsection \<open>empty\<close>

definition empty_slots :: "VRuntimeFilterSlots \<Rightarrow> bool" where
  "empty_slots slots \<longleftrightarrow> runtime_filters slots = []"

subsection \<open>Sequences of operations\<close>

text \<open>
  The public operations, run one after the other on one object, one heap and one shared
  context.
\<close>

datatype operation =
    Op_send_filter_size uint64 dep_ref
  | Op_disable_meaningless_filters
  | Op_ignore_all_filters
  | Op_disable_all_filters
  | Op_init_filters uint64
  | Op_insert stray_reads block
  | Op_publish bool
  | Op_copy_to_shared_context
  | Op_copy_from_shared_context

fun exec_op ::
  "status_oracle \<Rightarrow> RuntimeState \<Rightarrow> VRuntimeFilterSlots \<Rightarrow> operation \<Rightarrow>
     world \<times> shared_context \<Rightarrow> world \<times> shared_context" where
  "exec_op orc state slots (Op_send_filter_size n d) (w, c) =
     (snd (send_filter_size orc slots n d w), c)"
| "exec_op orc state slots Op_disable_meaningless_filters (w, c) =
     (snd (disable_meaningless_filters slots w), c)"
| "exec_op orc state slots Op_ignore_all_filters (w, c) = (snd (ignore_all_filters slots w), c)"
| "exec_op orc state slots Op_disable_all_filters (w, c) = (snd (disable_all_filters slots w), c)"
| "exec_op orc state slots (Op_init_filters n) (w, c) = (snd (init_filters orc slots state n w), c)"
| "exec_op orc state slots (Op_insert u b) (w, c) = (insert_block u slots b w, c)"
| "exec_op orc state slots (Op_publish publish_local) (w, c) =
     (snd (publish orc slots publish_local w), c)"
| "exec_op orc state slots Op_copy_to_shared_context (w, c) =
     (w, copy_to_shared_context slots w c)"
| "exec_op orc state slots Op_copy_from_shared_context (w, c) =
     (snd (copy_from_shared_context slots c w), c)"

fun run ::
  "status_oracle \<Rightarrow> RuntimeState \<Rightarrow> VRuntimeFilterSlots \<Rightarrow> operation list \<Rightarrow>
     world \<times> shared_context \<Rightarrow> world \<times> shared_context" where
  "run orc state slots [] s = s"
| "run orc state slots (op # ops) s = run orc state slots ops (exec_op orc state slots op s)"

subsection \<open>Vocabulary of the properties\<close>

text \<open>The calls made between two worlds: what the later trace adds to the earlier one.\<close>

definition calls_since :: "world \<Rightarrow> world \<Rightarrow> event list" where
  "calls_since w w' = drop (length (trace w)) (trace w')"

text \<open>
  Between two worlds no flag of any handle is cleared; and between two worlds the trace
  only grows, by calls none of which is an \<^verbatim>\<open>insert_batch\<close> on the handle \<open>a\<close>.
\<close>

definition flags_kept :: "world \<Rightarrow> world \<Rightarrow> bool" where
  "flags_kept w w' \<longleftrightarrow>
     (\<forall>a. (ignored (heap w a) \<longrightarrow> ignored (heap w' a)) \<and>
          (disabled (heap w a) \<longrightarrow> disabled (heap w' a)))"

definition quiet_for :: "addr \<Rightarrow> world \<Rightarrow> world \<Rightarrow> bool" where
  "quiet_for a w w' \<longleftrightarrow>
     (\<exists>calls. trace w' = trace w @ calls \<and> (\<forall>col k. Rf_insert_batch a col k \<notin> set calls))"

text \<open>
  An active filter has neither flag set; an active membership-set filter is active and of
  effective type \<open>IN_FILTER\<close>. The first pass of the pruning counts such a filter unless
  it needs no size synchronisation and is declared hybrid (the third test of the source's
  first loop). \<open>filters_on P w e as\<close> lists, in group order, the handles of \<open>as\<close> on
  the expression \<open>e\<close> that satisfy \<open>P\<close>. \<open>repeats has w as a\<close>: the handle \<open>a\<close> of
  \<open>as\<close> is counted, and its expression is in \<open>has\<close> already or \<open>a\<close> is not the first
  counted handle of \<open>as\<close> on it.
\<close>

definition active :: "IRuntimeFilter \<Rightarrow> bool" where
  "active f \<longleftrightarrow> \<not> ignored f \<and> \<not> disabled f"

definition active_in :: "IRuntimeFilter \<Rightarrow> bool" where
  "active_in f \<longleftrightarrow> active f \<and> real_type f = IN_FILTER"

definition countable_in :: "IRuntimeFilter \<Rightarrow> bool" where
  "countable_in f \<longleftrightarrow>
     active_in f \<and> \<not> (\<not> need_sync_filter_size f \<and> filter_type f = IN_OR_BLOOM_FILTER)"

definition filters_on ::
  "(IRuntimeFilter \<Rightarrow> bool) \<Rightarrow> world \<Rightarrow> int \<Rightarrow> addr list \<Rightarrow> addr list" where
  "filters_on P w e as = filter (\<lambda>a. P (heap w a) \<and> expr_order (heap w a) = e) as"

definition repeats :: "int set \<Rightarrow> world \<Rightarrow> addr list \<Rightarrow> addr \<Rightarrow> bool" where
  "repeats has w as a \<longleftrightarrow>
     a \<in> set as \<and> countable_in (heap w a) \<and>
     (expr_order (heap w a) \<in> has \<or>
      a \<notin> set (take 1 (filters_on countable_in w (expr_order (heap w a)) as)))"

text \<open>
  The test of \<^verbatim>\<open>init_filters\<close> for the transition: declared hybrid, and the resolved
  size above the threshold. \<open>retyped state n w w'\<close>: the heap \<open>w'\<close> is the heap \<open>w\<close>
  but for handles, not ignored and passing that test, whose effective type became
  \<open>BLOOM_FILTER\<close>.
\<close>

definition over_threshold :: "RuntimeState \<Rightarrow> uint64 \<Rightarrow> IRuntimeFilter \<Rightarrow> bool" where
  "over_threshold state n f \<longleftrightarrow>
     filter_type f = IN_OR_BLOOM_FILTER \<and> get_real_size f n > runtime_filter_max_in_num state"

definition retyped :: "RuntimeState \<Rightarrow> uint64 \<Rightarrow> world \<Rightarrow> world \<Rightarrow> bool" where
  "retyped state n w w' \<longleftrightarrow>
     (\<forall>b. heap w' b = heap w b \<or>
          (\<not> ignored (heap w b) \<and> over_threshold state n (heap w b) \<and>
           heap w' b = (heap w b)\<lparr>real_type := BLOOM_FILTER\<rparr>))"

subsection \<open>Concrete handles and heaps\<close>

text \<open>
  \<open>mk_filter\<close> builds a handle with both flags clear; \<open>world_of fs\<close> is the heap that
  holds the handles \<open>fs\<close> at the addresses 0, 1, ... with an empty trace; \<open>always_ok\<close>
  are collaborators that never fail.
\<close>

definition mk_filter ::
  "int \<Rightarrow> int \<Rightarrow> RuntimeFilterType \<Rightarrow> RuntimeFilterType \<Rightarrow> bool \<Rightarrow> uint64 \<Rightarrow> IRuntimeFilter" where
  "mk_filter i e t rt sync sz =
     \<lparr>filter_id = i, expr_order = e, filter_type = t, real_type = rt, ignored = False,
      disabled = False, need_sync_filter_size = sync, synced_size = sz,
      shared_context_ref = 0\<rparr>"

definition heap_of :: "IRuntimeFilter list \<Rightarrow> addr \<Rightarrow> IRuntimeFilter" where
  "heap_of fs a =
     (if a < length fs then fs ! a else mk_filter 0 0 IN_FILTER IN_FILTER False 0)"

definition world_of :: "IRuntimeFilter list \<Rightarrow> world" where
  "world_of fs = \<lparr>heap = heap_of fs, trace = []\<rparr>"

definition slots_of :: "int list \<Rightarrow> addr list \<Rightarrow> VRuntimeFilterSlots" where
  "slots_of ctxs as = \<lparr>build_expr_context = ctxs, runtime_filters = as\<rparr>"

definition always_ok :: status_oracle where
  "always_ok t = OK"

text \<open>Two hybrid handles that need size synchronisation, on expressions 0 and 1.\<close>

definition sync_pair :: "IRuntimeFilter list" where
  "sync_pair = [mk_filter 1 0 IN_OR_BLOOM_FILTER IN_FILTER True 4500,
                mk_filter 2 1 IN_OR_BLOOM_FILTER IN_FILTER True 4500]"

text \<open>
  One handle with both flags set; one disabled handle whose expression index 5 lies
  outside a one-element expression list; and reads outside a vector that yield the column
  id -1 and the empty column.
\<close>

definition flagged_one :: "IRuntimeFilter list" where
  "flagged_one = [(mk_filter 1 0 IN_FILTER IN_FILTER False 0)\<lparr>ignored := True, disabled := True\<rparr>]"


definition strays :: stray_reads where
  "strays = \<lparr>stray_column_id = - 1, stray_column = []\<rparr>"



text \<open>
  Two handles with the identities 1 and 2, and a shared context in which only the identity
  1 was exported.
\<close>

definition two_identities :: "IRuntimeFilter list" where
  "two_identities = [mk_filter 1 0 IN_FILTER IN_FILTER False 0,
                     mk_filter 2 1 IN_FILTER IN_FILTER False 0]"

definition only_first_exported :: shared_context where
  "only_first_exported = [1 \<mapsto> 9]"

text \<open>
  Two hybrid handles on expression 0 that need no size synchronisation; a hybrid handle
  that needs none beside one that does; and three membership-set handles on expression 0
  with a min/max handle among them.
\<close>

definition hybrid_local_pair :: "IRuntimeFilter list" where
  "hybrid_local_pair = [mk_filter 1 0 IN_OR_BLOOM_FILTER IN_FILTER False 0,
                        mk_filter 2 0 IN_OR_BLOOM_FILTER IN_FILTER False 0]"

definition local_and_synced :: "IRuntimeFilter list" where
  "local_and_synced = [mk_filter 1 0 IN_OR_BLOOM_FILTER IN_FILTER False 0,
                       mk_filter 2 1 IN_OR_BLOOM_FILTER IN_FILTER True 10]"

definition in_triple :: "IRuntimeFilter list" where
  "in_triple = [mk_filter 1 0 IN_FILTER IN_FILTER False 0,
                mk_filter 2 0 IN_FILTER IN_FILTER False 0,
                mk_filter 3 0 MINMAX_FILTER MINMAX_FILTER False 0,
                mk_filter 4 0 IN_FILTER IN_FILTER False 0]"

text \<open>
  On expression 0: a membership-set handle, a hybrid handle that needs no size
  synchronisation, a second membership-set handle and a min/max handle.
\<close>

definition mixed_four :: "IRuntimeFilter list" where
  "mixed_four = [mk_filter 1 0 IN_FILTER IN_FILTER False 0,
                 mk_filter 2 0 IN_OR_BLOOM_FILTER IN_FILTER False 0,
                 mk_filter 3 0 IN_FILTER IN_FILTER False 0,
                 mk_filter 4 0 MINMAX_FILTER MINMAX_FILTER False 0]"

text \<open>
  A hybrid handle that needs size synchronisation with the synced size 4500, a hybrid
  handle that needs none, and a Bloom filter handle.
\<close>

definition hybrid_mix :: "IRuntimeFilter list" where
  "hybrid_mix = [mk_filter 1 0 IN_OR_BLOOM_FILTER IN_FILTER True 4500,
                 mk_filter 2 1 IN_OR_BLOOM_FILTER IN_FILTER False 0,
                 mk_filter 3 2 BLOOM_FILTER BLOOM_FILTER False 0]"

section \<open>Frame properties of the handle operations\<close>

lemma heap_upd [simp]: "heap (upd a g w) = (heap w)(a := g (heap w a))"
  by (simp add: upd_def)

lemma trace_upd [simp]: "trace (upd a g w) = trace w"
  by (simp add: upd_def)

lemma heap_record_call [simp]: "heap (record_call e w) = heap w"
  by (simp add: record_call_def)

lemma trace_record_call [simp]: "trace (record_call e w) = trace w @ [e]"
  by (simp add: record_call_def)

section \<open>Effective size resolution\<close>

text \<open>
  C8. \<^verbatim>\<open>get_real_size\<close> is a function of the handle and the local cardinality alone
  (it takes no heap and no trace, and returns none: the source calls two accessors and
  nothing else). Its value is the handle's synced size when the handle needs size
  synchronisation, and the local cardinality otherwise.
\<close>

theorem get_real_size_resolves:
  "(need_sync_filter_size f \<longrightarrow> get_real_size f n = synced_size f) \<and>
   (\<not> need_sync_filter_size f \<longrightarrow> get_real_size f n = n)"
  by (simp add: get_real_size_def)

theorem get_real_size_resolves_witness:
  "get_real_size (mk_filter 1 0 IN_OR_BLOOM_FILTER IN_FILTER True 4500) 1500 = 4500 \<and>
   get_real_size (mk_filter 2 0 IN_OR_BLOOM_FILTER IN_FILTER False 0) 1500 = 1500"
  using get_real_size_resolves [of "mk_filter 1 0 IN_OR_BLOOM_FILTER IN_FILTER True 4500" 1500]
    get_real_size_resolves [of "mk_filter 2 0 IN_OR_BLOOM_FILTER IN_FILTER False 0" 1500]
  by (simp add: mk_filter_def)

section \<open>The empty group\<close>

text \<open>
  C9. On a group that holds no handle, every operation returns success (\<^verbatim>\<open>insert\<close>
  and \<^verbatim>\<open>copy_to_shared_context\<close>, which return nothing, return) and leaves the
  heap, the trace and the shared context as they were; and \<^verbatim>\<open>empty\<close> is true
  exactly when the group holds no handle.
\<close>

theorem empty_group_no_ops:
  "(runtime_filters slots = [] \<longrightarrow>
      send_filter_size orc slots n d w = (OK, w) \<and>
      init_filters orc slots state n w = (OK, w) \<and>
      disable_meaningless_filters slots w = (OK, w) \<and>
      ignore_all_filters slots w = (OK, w) \<and>
      disable_all_filters slots w = (OK, w) \<and>
      insert_block u slots b w = w \<and>
      publish orc slots publish_local w = (OK, w) \<and>
      copy_to_shared_context slots w c = c \<and>
      copy_from_shared_context slots c w = (OK, w)) \<and>
   (empty_slots slots \<longleftrightarrow> length (runtime_filters slots) = 0)"
  by (simp add: send_filter_size_def init_filters_def disable_meaningless_filters_def
      ignore_all_filters_def disable_all_filters_def insert_block_def publish_def
      copy_to_shared_context_def copy_from_shared_context_def empty_slots_def)

theorem empty_group_no_ops_witness:
  "send_filter_size always_ok (slots_of [] []) 10 7 (world_of []) = (OK, world_of []) \<and>
   init_filters always_ok (slots_of [] []) \<lparr>runtime_filter_max_in_num = 1000\<rparr> 10 (world_of [])
     = (OK, world_of []) \<and>
   disable_meaningless_filters (slots_of [] []) (world_of []) = (OK, world_of []) \<and>
   ignore_all_filters (slots_of [] []) (world_of []) = (OK, world_of []) \<and>
   disable_all_filters (slots_of [] []) (world_of []) = (OK, world_of []) \<and>
   insert_block strays (slots_of [] []) [] (world_of []) = world_of [] \<and>
   publish always_ok (slots_of [] []) True (world_of []) = (OK, world_of []) \<and>
   copy_to_shared_context (slots_of [] []) (world_of []) Map.empty = Map.empty \<and>
   copy_from_shared_context (slots_of [] []) Map.empty (world_of []) = (OK, world_of []) \<and>
   empty_slots (slots_of [] []) \<and> \<not> empty_slots (slots_of [0] [0])"
  using empty_group_no_ops [of "slots_of [] []" always_ok 10 7 "world_of []"
      "\<lparr>runtime_filter_max_in_num = 1000\<rparr>" strays "[]" True Map.empty]
    empty_group_no_ops [of "slots_of [0] [0]" always_ok 10 7 "world_of []"
      "\<lparr>runtime_filter_max_in_num = 1000\<rparr>" strays "[]" True Map.empty]
  by (simp add: slots_of_def)

section \<open>Size negotiation\<close>


lemma heap_register_dependency [simp]: "heap (register_dependency d as w) = heap w"
  by (induction as arbitrary: w) (simp_all add: set_finish_dependency_def)

lemma trace_register_dependency:
  "trace (register_dependency d as w) =
     trace w @ map (\<lambda>a. Rf_set_finish_dependency a d)
                 (filter (\<lambda>a. need_sync_filter_size (heap w a)) as)"
  by (induction as arbitrary: w) (simp_all add: set_finish_dependency_def)

lemma send_sizes_effect:
  "send_sizes orc n as w = (st, w') \<Longrightarrow>
     heap w' = heap w \<and>
     (\<exists>k. trace w' = trace w @ map (\<lambda>a. Rf_send_filter_size a n)
                 (take k (filter (\<lambda>a. need_sync_filter_size (heap w a)) as)))"
proof (induction as arbitrary: w)
  case Nil
  then show ?case by auto
next
  case (Cons a as)
  show ?case
  proof (cases "need_sync_filter_size (heap w a)")
    case False
    with Cons.prems have "send_sizes orc n as w = (st, w')" by simp
    from Cons.IH [OF this] False show ?thesis by simp
  next
    case True
    let ?w1 = "record_call (Rf_send_filter_size a n) w"
    show ?thesis
    proof (cases "orc (trace w @ [Rf_send_filter_size a n]) = OK")
      case False
      with True Cons.prems have "w' = ?w1"
        by (auto simp: rf_send_filter_size_def rf_call_def)
      then have "heap w' = heap w" and
        "trace w' = trace w @ map (\<lambda>a. Rf_send_filter_size a n)
           (take 1 (filter (\<lambda>a. need_sync_filter_size (heap w a)) (a # as)))"
        using True by simp_all
      then show ?thesis by blast
    next
      case ok: True
      with True Cons.prems have "send_sizes orc n as ?w1 = (st, w')"
        by (simp add: rf_send_filter_size_def rf_call_def)
      from Cons.IH [OF this] obtain k where
        h: "heap w' = heap w" and
        t: "trace w' = trace w @ [Rf_send_filter_size a n] @ map (\<lambda>a. Rf_send_filter_size a n)
           (take k (filter (\<lambda>a. need_sync_filter_size (heap w a)) as))"
        by auto
      from t True have "trace w' = trace w @ map (\<lambda>a. Rf_send_filter_size a n)
           (take (Suc k) (filter (\<lambda>a. need_sync_filter_size (heap w a)) (a # as)))"
        by simp
      with h show ?thesis by blast
    qed
  qed
qed

text \<open>
  C4. In \<^verbatim>\<open>send_filter_size\<close> the completion dependency is registered on every
  handle of the group that needs size synchronisation before any size report is sent: each
  \<^verbatim>\<open>send_filter_size\<close> call on a handle comes, in the calls the operation makes,
  after the \<^verbatim>\<open>set_finish_dependency\<close> call on every such handle of the group.
\<close>

theorem send_filter_size_registers_first:
  assumes run: "send_filter_size orc slots n d w = (st, w')"
    and i: "i < length (calls_since w w')"
    and send: "calls_since w w' ! i = Rf_send_filter_size a m"
    and b: "b \<in> set (runtime_filters slots)"
    and sync: "need_sync_filter_size (heap w b)"
  shows "trace w' = trace w @ calls_since w w' \<and>
         (\<exists>j<i. calls_since w w' ! j = Rf_set_finish_dependency b d)"
proof -
  let ?g = "runtime_filters slots"
  let ?need = "filter (\<lambda>a. need_sync_filter_size (heap w a)) ?g"
  let ?regs = "map (\<lambda>a. Rf_set_finish_dependency a d) ?need"
  let ?w1 = "register_dependency d ?g w"
  from b have ne: "?g \<noteq> []" by auto
  with run have "send_sizes orc n ?g ?w1 = (st, w')"
    by (simp add: send_filter_size_def)
  from send_sizes_effect [OF this] obtain k where
    t: "trace w' = trace w @ ?regs @ map (\<lambda>a. Rf_send_filter_size a n) (take k ?need)"
    by (auto simp: trace_register_dependency)
  let ?sends = "map (\<lambda>a. Rf_send_filter_size a n) (take k ?need)"
  from t have cs: "calls_since w w' = ?regs @ ?sends"
    by (simp add: calls_since_def)
  have ge: "length ?regs \<le> i"
  proof (rule ccontr)
    assume "\<not> length ?regs \<le> i"
    then have lt: "i < length ?regs" by simp
    then have "calls_since w w' ! i = ?regs ! i"
      by (simp add: cs nth_append)
    also have "\<dots> = Rf_set_finish_dependency (?need ! i) d"
      using lt by simp
    finally show False using send by simp
  qed
  from b sync have "b \<in> set ?need" by simp
  then obtain j where j: "j < length ?need" and bj: "?need ! j = b"
    unfolding in_set_conv_nth by blast
  then have "calls_since w w' ! j = Rf_set_finish_dependency b d"
    by (simp add: cs nth_append)
  moreover from j ge have "j < i" by simp
  ultimately show ?thesis using t cs by auto
qed

theorem send_filter_size_registers_first_witness:
  "calls_since (world_of sync_pair)
       (snd (send_filter_size always_ok (slots_of [0, 1] [0, 1]) 1500 7 (world_of sync_pair)))
     = [Rf_set_finish_dependency 0 7, Rf_set_finish_dependency 1 7,
        Rf_send_filter_size 0 1500, Rf_send_filter_size 1 1500] \<and>
   (\<exists>j<2. calls_since (world_of sync_pair)
       (snd (send_filter_size always_ok (slots_of [0, 1] [0, 1]) 1500 7 (world_of sync_pair))) ! j
     = Rf_set_finish_dependency 1 7)"
proof -
  let ?w = "world_of sync_pair"
  let ?r = "send_filter_size always_ok (slots_of [0, 1] [0, 1]) 1500 7 ?w"
  have cs: "calls_since ?w (snd ?r)
     = [Rf_set_finish_dependency 0 7, Rf_set_finish_dependency 1 7,
        Rf_send_filter_size 0 1500, Rf_send_filter_size 1 1500]"
    by (simp add: send_filter_size_def slots_of_def world_of_def heap_of_def sync_pair_def
        mk_filter_def set_finish_dependency_def rf_send_filter_size_def rf_call_def
        always_ok_def calls_since_def record_call_def)
  have r: "?r = (fst ?r, snd ?r)" by simp
  have i: "2 < length (calls_since ?w (snd ?r))" unfolding cs by simp
  have s: "calls_since ?w (snd ?r) ! 2 = Rf_send_filter_size 0 1500" unfolding cs by simp
  have b: "1 \<in> set (runtime_filters (slots_of [0, 1] [0, 1]))" by (simp add: slots_of_def)
  have n: "need_sync_filter_size (heap ?w 1)"
    by (simp add: world_of_def heap_of_def sync_pair_def mk_filter_def)
  from send_filter_size_registers_first [OF r i s b n] cs show ?thesis by blast
qed

section \<open>Flags and traces across the operations\<close>

lemma flags_kept_refl [simp]: "flags_kept w w"
  by (simp add: flags_kept_def)

lemma flags_kept_trans: "flags_kept w w1 \<Longrightarrow> flags_kept w1 w2 \<Longrightarrow> flags_kept w w2"
  by (simp add: flags_kept_def)

lemma flags_kept_heap_eq: "heap w' = heap w \<Longrightarrow> flags_kept w w'"
  by (simp add: flags_kept_def)

lemma flags_kept_upd:
  "(\<And>f. ignored f \<Longrightarrow> ignored (g f)) \<Longrightarrow> (\<And>f. disabled f \<Longrightarrow> disabled (g f)) \<Longrightarrow>
     flags_kept w (upd a g w)"
  by (simp add: flags_kept_def)

lemma flags_kept_set_ignored: "flags_kept w (set_ignored a w)"
  by (simp add: set_ignored_def flags_kept_upd)

lemma flags_kept_set_disabled: "flags_kept w (set_disabled a w)"
  by (simp add: set_disabled_def flags_kept_upd)

lemma quiet_for_refl [simp]: "quiet_for a w w"
  by (simp add: quiet_for_def)

lemma quiet_for_trans: "quiet_for a w w1 \<Longrightarrow> quiet_for a w1 w2 \<Longrightarrow> quiet_for a w w2"
  by (auto simp: quiet_for_def)

lemma quiet_for_trace_eq: "trace w' = trace w \<Longrightarrow> quiet_for a w w'"
  by (simp add: quiet_for_def)

lemma quiet_for_record_call:
  "(\<And>col k. e \<noteq> Rf_insert_batch a col k) \<Longrightarrow> quiet_for a w (record_call e w)"
  by (auto simp: quiet_for_def)

lemma quiet_for_calls_since:
  "quiet_for a w w' \<Longrightarrow> Rf_insert_batch a col k \<notin> set (calls_since w w')"
  by (auto simp: quiet_for_def calls_since_def)

text \<open>The handle operations.\<close>

lemma set_finish_dependency_keeps:
  "flags_kept w (set_finish_dependency a d w) \<and> quiet_for b w (set_finish_dependency a d w)"
  by (simp add: set_finish_dependency_def flags_kept_heap_eq quiet_for_record_call)

lemma rf_call_keeps:
  "(\<And>col k. e \<noteq> Rf_insert_batch b col k) \<Longrightarrow>
     flags_kept w (snd (rf_call orc e w)) \<and> quiet_for b w (snd (rf_call orc e w))"
  by (simp add: rf_call_def flags_kept_heap_eq quiet_for_record_call)

lemma change_to_bloom_filter_keeps:
  "flags_kept w (snd (change_to_bloom_filter orc a w)) \<and>
   quiet_for b w (snd (change_to_bloom_filter orc a w))"
  by (simp add: change_to_bloom_filter_def rf_call_def flags_kept_def quiet_for_def)

text \<open>The loops.\<close>

lemma register_dependency_keeps:
  "flags_kept w (register_dependency d as w) \<and> quiet_for b w (register_dependency d as w)"
proof (induction as arbitrary: w)
  case Nil
  show ?case by simp
next
  case (Cons a as)
  show ?case
    using set_finish_dependency_keeps [of w a d b]
      Cons.IH [of "set_finish_dependency a d w"] Cons.IH [of w]
    by (auto intro: flags_kept_trans quiet_for_trans)
qed

lemma send_sizes_keeps:
  "flags_kept w (snd (send_sizes orc n as w)) \<and> quiet_for b w (snd (send_sizes orc n as w))"
proof (induction as arbitrary: w)
  case Nil
  show ?case by simp
next
  case (Cons a as)
  let ?w1 = "snd (rf_call orc (Rf_send_filter_size a n) w)"
  have step: "flags_kept w ?w1 \<and> quiet_for b w ?w1"
    by (rule rf_call_keeps) simp
  show ?case
    using step Cons.IH [of ?w1] Cons.IH [of w]
    by (auto simp: rf_send_filter_size_def split_beta intro: flags_kept_trans quiet_for_trans)
qed

lemma send_filter_size_keeps:
  "flags_kept w (snd (send_filter_size orc slots n d w)) \<and>
   quiet_for b w (snd (send_filter_size orc slots n d w))"
  using register_dependency_keeps [of w d "runtime_filters slots" b]
    send_sizes_keeps [of "register_dependency d (runtime_filters slots) w" orc n
      "runtime_filters slots" b]
  by (auto simp: send_filter_size_def intro: flags_kept_trans quiet_for_trans)

lemma trace_set_disabled [simp]: "trace (set_disabled a w) = trace w"
  by (simp add: set_disabled_def)

lemma trace_set_ignored [simp]: "trace (set_ignored a w) = trace w"
  by (simp add: set_ignored_def)

lemma dedup_in_filters_keeps:
  "flags_kept w (snd (dedup_in_filters as has w)) \<and>
   trace (snd (dedup_in_filters as has w)) = trace w"
proof (induction as arbitrary: has w)
  case Nil
  show ?case by simp
next
  case (Cons a as)
  show ?case
    using flags_kept_set_disabled [of w a] Cons.IH [of w has]
      Cons.IH [of "set_disabled a w" has] Cons.IH [of w "insert (expr_order (heap w a)) has"]
    by (auto intro: flags_kept_trans)
qed

lemma disable_dominated_keeps:
  "flags_kept w (disable_dominated as has w) \<and> trace (disable_dominated as has w) = trace w"
proof (induction as arbitrary: w)
  case Nil
  show ?case by simp
next
  case (Cons a as)
  show ?case
    using flags_kept_set_disabled [of w a] Cons.IH [of w] Cons.IH [of "set_disabled a w"]
    by (auto intro: flags_kept_trans)
qed

lemma disable_meaningless_filters_keeps:
  "flags_kept w (snd (disable_meaningless_filters slots w)) \<and>
   trace (snd (disable_meaningless_filters slots w)) = trace w"
  using dedup_in_filters_keeps [of w "runtime_filters slots" "{}"]
    disable_dominated_keeps [of "snd (dedup_in_filters (runtime_filters slots) {} w)"
      "runtime_filters slots" "fst (dedup_in_filters (runtime_filters slots) {} w)"]
  by (auto simp: disable_meaningless_filters_def split_beta intro: flags_kept_trans)

lemma ignore_each_keeps:
  "flags_kept w (ignore_each as w) \<and> trace (ignore_each as w) = trace w"
proof (induction as arbitrary: w)
  case Nil
  show ?case by simp
next
  case (Cons a as)
  show ?case
    using flags_kept_set_ignored [of w a] Cons.IH [of "set_ignored a w"]
    by (auto intro: flags_kept_trans)
qed

lemma disable_each_keeps:
  "flags_kept w (disable_each as w) \<and> trace (disable_each as w) = trace w"
proof (induction as arbitrary: w)
  case Nil
  show ?case by simp
next
  case (Cons a as)
  show ?case
    using flags_kept_set_disabled [of w a] Cons.IH [of "set_disabled a w"]
    by (auto intro: flags_kept_trans)
qed

lemma init_filter_keeps:
  "flags_kept w (snd (init_filter orc state n a w)) \<and>
   quiet_for b w (snd (init_filter orc state n a w))"
proof -
  let ?c = "change_to_bloom_filter orc a w"
  have c: "flags_kept w (snd ?c) \<and> quiet_for b w (snd ?c)"
    by (rule change_to_bloom_filter_keeps)
  have i: "flags_kept w1 (snd (init_bloom_filter orc a m w1)) \<and>
           quiet_for b w1 (snd (init_bloom_filter orc a m w1))" for w1 m
    unfolding init_bloom_filter_def by (rule rf_call_keeps) simp
  show ?thesis
    using c i [of w] i [of "snd ?c"]
    by (auto simp: init_filter_def split_beta Let_def intro: flags_kept_trans quiet_for_trans)
qed

lemma init_each_keeps:
  "flags_kept w (snd (init_each orc state n as w)) \<and>
   quiet_for b w (snd (init_each orc state n as w))"
proof (induction as arbitrary: w)
  case Nil
  show ?case by simp
next
  case (Cons a as)
  show ?case
    using init_filter_keeps [of w orc state n a b]
      Cons.IH [of w] Cons.IH [of "snd (init_filter orc state n a w)"]
    by (auto simp: split_beta Let_def intro: flags_kept_trans quiet_for_trans)
qed

lemma insert_each_effect:
  "heap (insert_each u slots b as w) = heap w \<and>
   trace (insert_each u slots b as w) =
     trace w @ concat (map (\<lambda>a.
       let e = expr_order (heap w a);
           position = (if 0 \<le> e \<and> e < int (length (build_expr_context slots))
                       then build_expr_context slots ! nat e else stray_column_id u);
           col = (if 0 \<le> position \<and> position < int (length b)
                  then b ! nat position else stray_column u)
       in Block_get_by_position position #
          (if ignored (heap w a) \<or> disabled (heap w a) then []
           else [Rf_insert_batch a col 1])) as)"
proof (induction as arbitrary: w)
  case Nil
  show ?case by simp
next
  case (Cons x as)
  let ?p = "get_last_result_column_id u slots (expr_order (heap w x))"
  let ?w1 = "record_call (Block_get_by_position ?p) w"
  let ?w2 = "insert_batch x (unchecked_nth (stray_column u) b ?p) 1 ?w1"
  have h: "heap ?w1 = heap w" "heap ?w2 = heap w"
    by (simp_all add: insert_batch_def)
  have step: "insert_each u slots b (x # as) w =
      (if ignored (heap w x) \<or> disabled (heap w x) then insert_each u slots b as ?w1
       else insert_each u slots b as ?w2)"
    by (simp add: get_by_position_def Let_def)
  show ?case
    unfolding step using Cons.IH [of ?w1] Cons.IH [of ?w2]
    by (simp add: h insert_batch_def Let_def get_last_result_column_id_def unchecked_nth_def)
qed

lemma insert_each_heap [simp]: "heap (insert_each u slots b as w) = heap w"
  using insert_each_effect by blast

lemma insert_each_quiet:
  assumes "ignored (heap w a) \<or> disabled (heap w a)"
  shows "quiet_for a w (insert_each u slots b as w)"
  unfolding quiet_for_def using assms insert_each_effect [of u slots b as w]
  by (auto simp: Let_def split: if_splits)

lemma publish_each_effect:
  "publish_each orc pl as w = (st, w') \<Longrightarrow>
     heap w' = heap w \<and>
     (\<exists>k\<le>length as. trace w' = trace w @ map (\<lambda>a. Rf_publish a pl) (take k as) \<and>
        (\<forall>j. 0 < j \<and> j < k \<longrightarrow>
           orc (trace w @ map (\<lambda>a. Rf_publish a pl) (take j as)) = OK) \<and>
        st = (if k = 0 then OK else orc (trace w @ map (\<lambda>a. Rf_publish a pl) (take k as))) \<and>
        (st = OK \<longrightarrow> k = length as))"
proof (induction as arbitrary: w)
  case Nil
  then have "heap w' = heap w" and "trace w' = trace w" and "st = OK" by simp_all
  then show ?case by simp
next
  case (Cons a as)
  let ?ev = "\<lambda>a. Rf_publish a pl"
  let ?w1 = "record_call (?ev a) w"
  have tw1: "trace ?w1 = trace w @ [?ev a]" and hw1: "heap ?w1 = heap w" by simp_all
  show ?case
  proof (cases "orc (trace w @ [?ev a]) = OK")
    case False
    with Cons.prems have w': "w' = ?w1" and st: "st = orc (trace w @ [?ev a])"
      by (auto simp: rf_publish_def rf_call_def)
    have A: "heap w' = heap w" using w' by simp
    have B: "Suc 0 \<le> length (a # as)" by simp
    have C: "trace w' = trace w @ map ?ev (take (Suc 0) (a # as))" using w' by simp
    have D: "\<forall>j. 0 < j \<and> j < Suc 0 \<longrightarrow> orc (trace w @ map ?ev (take j (a # as))) = OK"
      by simp
    have E: "st = (if Suc 0 = 0 then OK else orc (trace w @ map ?ev (take (Suc 0) (a # as))))"
      using st by simp
    have F: "st = OK \<longrightarrow> Suc 0 = length (a # as)" using st False by simp
    show ?thesis
      by (rule conjI [OF A]) (rule exI [of _ "Suc 0"], intro conjI B C D E F)
  next
    case True
    with Cons.prems have "publish_each orc pl as ?w1 = (st, w')"
      by (simp add: rf_publish_def rf_call_def)
    from Cons.IH [OF this] have
      h: "heap w' = heap ?w1" and
      ex: "\<exists>k\<le>length as. trace w' = trace ?w1 @ map ?ev (take k as) \<and>
        (\<forall>j. 0 < j \<and> j < k \<longrightarrow> orc (trace ?w1 @ map ?ev (take j as)) = OK) \<and>
        st = (if k = 0 then OK else orc (trace ?w1 @ map ?ev (take k as))) \<and>
        (st = OK \<longrightarrow> k = length as)"
      by (rule conjunct1, rule conjunct2)
    from ex obtain k where k: "k \<le> length as" and
      t: "trace w' = trace ?w1 @ map ?ev (take k as)" and
      ok: "\<forall>j. 0 < j \<and> j < k \<longrightarrow> orc (trace ?w1 @ map ?ev (take j as)) = OK" and
      st: "st = (if k = 0 then OK else orc (trace ?w1 @ map ?ev (take k as)))" and
      all: "st = OK \<longrightarrow> k = length as"
      by (elim exE conjE)
    have A: "heap w' = heap w" using h by simp
    have B: "Suc k \<le> length (a # as)" using k by simp
    have C: "trace w' = trace w @ map ?ev (take (Suc k) (a # as))" using t by simp
    have D: "\<forall>j. 0 < j \<and> j < Suc k \<longrightarrow> orc (trace w @ map ?ev (take j (a # as))) = OK"
    proof (intro allI impI)
      fix j assume j: "0 < j \<and> j < Suc k"
      then obtain i where i: "j = Suc i" by (cases j) auto
      show "orc (trace w @ map ?ev (take j (a # as))) = OK"
      proof (cases "i = 0")
        case True
        with i \<open>orc (trace w @ [?ev a]) = OK\<close> show ?thesis by simp
      next
        case False
        with i j have "0 < i \<and> i < k" by simp
        with ok [THEN spec, of i] have "orc (trace ?w1 @ map ?ev (take i as)) = OK" by simp
        with i show ?thesis by simp
      qed
    qed
    have E: "st = (if Suc k = 0 then OK else orc (trace w @ map ?ev (take (Suc k) (a # as))))"
      using st \<open>orc (trace w @ [?ev a]) = OK\<close> by (cases "k = 0") simp_all
    have F: "st = OK \<longrightarrow> Suc k = length (a # as)" using all by simp
    show ?thesis
      by (rule conjI [OF A]) (rule exI [of _ "Suc k"], intro conjI B C D E F)
  qed
qed

lemma publish_keeps:
  "flags_kept w (snd (publish orc slots pl w)) \<and> quiet_for b w (snd (publish orc slots pl w))"
proof -
  obtain st w' where r: "publish_each orc pl (runtime_filters slots) w = (st, w')"
    by (cases "publish_each orc pl (runtime_filters slots) w")
  from publish_each_effect [OF r] obtain k where
    "heap w' = heap w" and
    "trace w' = trace w @ map (\<lambda>a. Rf_publish a pl) (take k (runtime_filters slots))"
    by auto
  then have "flags_kept w w'" and "quiet_for b w w'"
    by (auto simp: flags_kept_heap_eq quiet_for_def)
  with r show ?thesis by (simp add: publish_def)
qed

lemma copy_from_each_keeps:
  "flags_kept w (snd (copy_from_each context as w)) \<and>
   trace (snd (copy_from_each context as w)) = trace w"
proof (induction as arbitrary: w)
  case Nil
  show ?case by simp
next
  case (Cons a as)
  have "flags_kept w (upd a (\<lambda>f. f\<lparr>shared_context_ref := r\<rparr>) w)" for r
    by (simp add: flags_kept_upd)
  then show ?case
    using Cons.IH by (auto split: option.splits intro: flags_kept_trans)
qed

lemma exec_op_keeps:
  "flags_kept w (fst (exec_op orc state slots op (w, c)))"
proof (cases op)
  case (Op_send_filter_size n d)
  then show ?thesis using send_filter_size_keeps [of w orc slots n d] by simp
next
  case Op_disable_meaningless_filters
  then show ?thesis using disable_meaningless_filters_keeps [of w slots] by simp
next
  case Op_ignore_all_filters
  then show ?thesis using ignore_each_keeps by (simp add: ignore_all_filters_def)
next
  case Op_disable_all_filters
  then show ?thesis using disable_each_keeps by (simp add: disable_all_filters_def)
next
  case (Op_init_filters n)
  then show ?thesis using init_each_keeps by (simp add: init_filters_def)
next
  case (Op_insert u b)
  then show ?thesis by (simp add: insert_block_def flags_kept_heap_eq)
next
  case (Op_publish pl)
  then show ?thesis using publish_keeps by simp
next
  case Op_copy_to_shared_context
  then show ?thesis by simp
next
  case Op_copy_from_shared_context
  then show ?thesis using copy_from_each_keeps by (simp add: copy_from_shared_context_def)
qed

lemma exec_op_quiet:
  "ignored (heap w a) \<or> disabled (heap w a) \<Longrightarrow>
     quiet_for a w (fst (exec_op orc state slots op (w, c)))"
proof (cases op)
  case (Op_send_filter_size n d)
  then show ?thesis using send_filter_size_keeps [of w orc slots n d] by simp
next
  case Op_disable_meaningless_filters
  then show ?thesis
    using disable_meaningless_filters_keeps [of w slots] by (simp add: quiet_for_trace_eq)
next
  case Op_ignore_all_filters
  then show ?thesis
    using ignore_each_keeps by (simp add: ignore_all_filters_def quiet_for_trace_eq)
next
  case Op_disable_all_filters
  then show ?thesis
    using disable_each_keeps by (simp add: disable_all_filters_def quiet_for_trace_eq)
next
  case (Op_init_filters n)
  then show ?thesis using init_each_keeps by (simp add: init_filters_def)
next
  case (Op_insert u b)
  assume "ignored (heap w a) \<or> disabled (heap w a)"
  then have "quiet_for a w (insert_each u slots b (runtime_filters slots) w)"
    by (rule insert_each_quiet)
  with Op_insert show ?thesis by (simp add: insert_block_def)
next
  case (Op_publish pl)
  then show ?thesis using publish_keeps by simp
next
  case Op_copy_to_shared_context
  then show ?thesis by simp
next
  case Op_copy_from_shared_context
  then show ?thesis
    using copy_from_each_keeps by (simp add: copy_from_shared_context_def quiet_for_trace_eq)
qed

lemma run_keeps: "flags_kept (fst s) (fst (run orc state slots ops s))"
proof (induction ops arbitrary: s)
  case Nil
  show ?case by simp
next
  case (Cons op ops)
  obtain w c where s: "s = (w, c)" by (cases s)
  have "flags_kept w (fst (exec_op orc state slots op (w, c)))"
    by (rule exec_op_keeps)
  with Cons.IH [of "exec_op orc state slots op (w, c)"] s show ?case
    by (auto intro: flags_kept_trans)
qed

lemma run_quiet:
  "ignored (heap (fst s) a) \<or> disabled (heap (fst s) a) \<Longrightarrow>
     quiet_for a (fst s) (fst (run orc state slots ops s))"
proof (induction ops arbitrary: s)
  case Nil
  show ?case by simp
next
  case (Cons op ops)
  obtain w c where s: "s = (w, c)" by (cases s)
  let ?s1 = "exec_op orc state slots op (w, c)"
  from Cons.prems s have fl: "ignored (heap w a) \<or> disabled (heap w a)" by simp
  then have q: "quiet_for a w (fst ?s1)" by (rule exec_op_quiet)
  have "flags_kept w (fst ?s1)" by (rule exec_op_keeps)
  with fl have "ignored (heap (fst ?s1) a) \<or> disabled (heap (fst ?s1) a)"
    by (auto simp: flags_kept_def)
  from Cons.IH [OF this] q s show ?case
    by (auto intro: quiet_for_trans)
qed

section \<open>Monotonic flags\<close>

text \<open>
  C7. Across every sequence of the operations, a flag that is set on a handle stays set:
  whatever the operations and their arguments, the heap after the run still has
  \<open>ignored\<close> (and \<open>disabled\<close>) true on every handle on which it was true before.
\<close>

theorem flags_monotonic:
  "(ignored (heap w a) \<longrightarrow> ignored (heap (fst (run orc state slots ops (w, c))) a)) \<and>
   (disabled (heap w a) \<longrightarrow> disabled (heap (fst (run orc state slots ops (w, c))) a))"
  using run_keeps [of "(w, c)" orc state slots ops] by (simp add: flags_kept_def)

theorem flags_monotonic_witness:
  "ignored (heap (world_of flagged_one) 0) \<and>
   ignored (heap (fst (run always_ok \<lparr>runtime_filter_max_in_num = 1000\<rparr> (slots_of [0] [0])
      [Op_send_filter_size 10 7, Op_init_filters 10, Op_disable_meaningless_filters,
       Op_insert strays [[1, 2]], Op_publish True, Op_copy_to_shared_context,
       Op_copy_from_shared_context] (world_of flagged_one, Map.empty))) 0) \<and>
   disabled (heap (world_of flagged_one) 0) \<and>
   disabled (heap (fst (run always_ok \<lparr>runtime_filter_max_in_num = 1000\<rparr> (slots_of [0] [0])
      [Op_send_filter_size 10 7, Op_init_filters 10, Op_disable_meaningless_filters,
       Op_insert strays [[1, 2]], Op_publish True, Op_copy_to_shared_context,
       Op_copy_from_shared_context] (world_of flagged_one, Map.empty))) 0)"
proof -
  have f: "ignored (heap (world_of flagged_one) 0)" "disabled (heap (world_of flagged_one) 0)"
    by (simp_all add: world_of_def heap_of_def flagged_one_def mk_filter_def)
  from f flags_monotonic [of "world_of flagged_one" 0 always_ok
      "\<lparr>runtime_filter_max_in_num = 1000\<rparr>" "slots_of [0] [0]"
      "[Op_send_filter_size 10 7, Op_init_filters 10, Op_disable_meaningless_filters,
       Op_insert strays [[1, 2]], Op_publish True, Op_copy_to_shared_context,
       Op_copy_from_shared_context]" Map.empty]
  show ?thesis by blast
qed

section \<open>Suppression by the flags\<close>

text \<open>
  C2, as the source has it. A handle whose \<open>ignored\<close> or \<open>disabled\<close> flag is true
  receives no \<^verbatim>\<open>insert_batch\<close> call in any later run of operations: the flags
  suppress ingestion for good. \<^verbatim>\<open>publish\<close> does not read the flags and leaves the
  heap as it is: it calls the publish operation of the first \<open>k\<close> handles in group
  order, where every call before the last returned OK and the status returned is that of
  the last call (OK when the group is empty); when it returns OK all handles were called,
  so \<open>k\<close> stops short of the whole group only at the first call that fails.
\<close>

theorem flags_suppress_insert_not_publish:
  "(ignored (heap w a) \<or> disabled (heap w a) \<longrightarrow>
      (\<forall>col k. Rf_insert_batch a col k \<notin>
          set (calls_since w (fst (run orc state slots ops (w, c)))))) \<and>
   (\<exists>k\<le>length (runtime_filters slots).
      snd (publish orc slots publish_local w) =
        w\<lparr>trace := trace w @
              map (\<lambda>a. Rf_publish a publish_local) (take k (runtime_filters slots))\<rparr> \<and>
      calls_since w (snd (publish orc slots publish_local w)) =
        map (\<lambda>a. Rf_publish a publish_local) (take k (runtime_filters slots)) \<and>
      (\<forall>j. 0 < j \<and> j < k \<longrightarrow>
         orc (trace w @ map (\<lambda>a. Rf_publish a publish_local)
                          (take j (runtime_filters slots))) = OK) \<and>
      fst (publish orc slots publish_local w) =
        (if k = 0 then OK
         else orc (trace w @ map (\<lambda>a. Rf_publish a publish_local)
                               (take k (runtime_filters slots)))) \<and>
      (fst (publish orc slots publish_local w) = OK \<longrightarrow> k = length (runtime_filters slots)))"
proof -
  let ?g = "runtime_filters slots"
  let ?ev = "\<lambda>a. Rf_publish a publish_local"
  have "Rf_insert_batch a col k \<notin> set (calls_since w (fst (run orc state slots ops (w, c))))"
    if "ignored (heap w a) \<or> disabled (heap w a)" for col k
    using run_quiet [of "(w, c)" a orc state slots ops] that
    by (simp add: quiet_for_calls_since)
  moreover
  obtain st w' where r: "publish_each orc publish_local ?g w = (st, w')"
    by (cases "publish_each orc publish_local ?g w")
  from publish_each_effect [OF r] obtain k where
    h: "heap w' = heap w" and k: "k \<le> length ?g" and
    t: "trace w' = trace w @ map ?ev (take k ?g)" and
    ok: "\<forall>j. 0 < j \<and> j < k \<longrightarrow> orc (trace w @ map ?ev (take j ?g)) = OK" and
    st: "st = (if k = 0 then OK else orc (trace w @ map ?ev (take k ?g)))" and
    all: "st = OK \<longrightarrow> k = length ?g"
    by blast
  from h t have w': "w' = w\<lparr>trace := trace w @ map ?ev (take k ?g)\<rparr>"
    by simp
  from r have p: "publish orc slots publish_local w = (st, w')"
    by (simp add: publish_def)
  have cs: "calls_since w w' = map ?ev (take k ?g)"
    using t by (simp add: calls_since_def)
  have "\<exists>k\<le>length ?g.
      snd (publish orc slots publish_local w) = w\<lparr>trace := trace w @ map ?ev (take k ?g)\<rparr> \<and>
      calls_since w (snd (publish orc slots publish_local w)) = map ?ev (take k ?g) \<and>
      (\<forall>j. 0 < j \<and> j < k \<longrightarrow> orc (trace w @ map ?ev (take j ?g)) = OK) \<and>
      fst (publish orc slots publish_local w) =
        (if k = 0 then OK else orc (trace w @ map ?ev (take k ?g))) \<and>
      (fst (publish orc slots publish_local w) = OK \<longrightarrow> k = length ?g)"
    unfolding p fst_conv snd_conv using k w' cs ok st all by blast
  ultimately show ?thesis by blast
qed

theorem flags_suppress_insert_not_publish_witness:
  "disabled (heap (world_of flagged_one) 0) \<and>
   (\<forall>col k. Rf_insert_batch 0 col k \<notin>
      set (calls_since (world_of flagged_one)
        (fst (run always_ok \<lparr>runtime_filter_max_in_num = 1000\<rparr> (slots_of [0] [0])
           [Op_insert strays [[1, 2]], Op_publish True, Op_insert strays [[3]]]
           (world_of flagged_one, Map.empty))))) \<and>
   (\<exists>k\<le>length (runtime_filters (slots_of [0] [0])).
      calls_since (world_of flagged_one)
        (snd (publish always_ok (slots_of [0] [0]) True (world_of flagged_one))) =
        map (\<lambda>a. Rf_publish a True) (take k (runtime_filters (slots_of [0] [0]))) \<and>
      fst (publish always_ok (slots_of [0] [0]) True (world_of flagged_one)) =
        (if k = 0 then OK
         else always_ok (trace (world_of flagged_one) @
                map (\<lambda>a. Rf_publish a True) (take k (runtime_filters (slots_of [0] [0]))))))"
proof -
  have f: "disabled (heap (world_of flagged_one) 0)"
    by (simp add: world_of_def heap_of_def flagged_one_def mk_filter_def)
  from f flags_suppress_insert_not_publish [of "world_of flagged_one" 0 always_ok
      "\<lparr>runtime_filter_max_in_num = 1000\<rparr>" "slots_of [0] [0]"
      "[Op_insert strays [[1, 2]], Op_publish True, Op_insert strays [[3]]]" Map.empty True]
  show ?thesis by blast
qed

text \<open>
  The claim as written fails on publication: a handle with both flags set has its publish
  operation called.
\<close>

theorem flagged_handle_is_published:
  "ignored (heap (world_of flagged_one) 0) \<and> disabled (heap (world_of flagged_one) 0) \<and>
   calls_since (world_of flagged_one)
     (snd (publish always_ok (slots_of [0] [0]) True (world_of flagged_one)))
     = [Rf_publish 0 True]"
  by (simp add: world_of_def heap_of_def flagged_one_def mk_filter_def slots_of_def
      publish_def rf_publish_def rf_call_def always_ok_def calls_since_def record_call_def)

section \<open>Column lookup in insert\<close>




section \<open>Import from the shared context\<close>

lemma copy_from_each_missing:
  assumes "\<forall>a\<in>set pre. context (filter_id (heap w a)) \<noteq> None"
    and "context (filter_id (heap w m)) = None"
  shows "fst (copy_from_each context (pre @ m # rest) w) =
           invalid_runtime_filter_id (filter_id (heap w m)) \<and>
         heap (snd (copy_from_each context (pre @ m # rest) w)) a =
           (if a \<in> set pre
            then (heap w a)\<lparr>shared_context_ref := the (context (filter_id (heap w a)))\<rparr>
            else heap w a)"
  using assms
proof (induction pre arbitrary: w)
  case Nil
  then show ?case by simp
next
  case (Cons x xs)
  from Cons.prems obtain r where r: "context (filter_id (heap w x)) = Some r" by auto
  let ?w1 = "upd x (\<lambda>f. f\<lparr>shared_context_ref := r\<rparr>) w"
  have ids: "filter_id (heap ?w1 b) = filter_id (heap w b)" for b by simp
  have p1: "\<forall>a\<in>set xs. context (filter_id (heap ?w1 a)) \<noteq> None"
    using Cons.prems(1) by (simp only: ids) simp
  have p2: "context (filter_id (heap ?w1 m)) = None"
    using Cons.prems(2) by (simp only: ids)
  from Cons.IH [OF p1 p2] r show ?case
    by (simp only: ids) (auto simp: r)
qed

text \<open>
  C3, as the source has it. When the identity of some handle is missing from the shared
  context, \<^verbatim>\<open>copy_from_shared_context\<close> returns the Aborted status whose message
  names the first missing identity in group order. The handles before that one have
  already taken the shared reference and keep it (there is no rollback); every other
  handle is as it was.
\<close>

theorem copy_from_shared_context_missing:
  assumes "\<exists>a\<in>set (runtime_filters slots). context (filter_id (heap w a)) = None"
  shows "\<exists>pre m rest. runtime_filters slots = pre @ m # rest \<and>
           (\<forall>a\<in>set pre. context (filter_id (heap w a)) \<noteq> None) \<and>
           context (filter_id (heap w m)) = None \<and>
           fst (copy_from_shared_context slots context w) =
             Aborted (''invalid runtime filter id: '' @ dec_int (filter_id (heap w m))) \<and>
           (\<forall>a. heap (snd (copy_from_shared_context slots context w)) a =
             (if a \<in> set pre
              then (heap w a)\<lparr>shared_context_ref := the (context (filter_id (heap w a)))\<rparr>
              else heap w a))"
proof -
  from split_list_first_prop [OF assms] obtain pre m rest where
    g: "runtime_filters slots = pre @ m # rest" and
    m: "context (filter_id (heap w m)) = None" and
    pre: "\<forall>a\<in>set pre. context (filter_id (heap w a)) \<noteq> None"
    by blast
  from copy_from_each_missing [OF pre m, of rest] g
  have "fst (copy_from_shared_context slots context w) =
             Aborted (''invalid runtime filter id: '' @ dec_int (filter_id (heap w m)))"
    and "\<forall>a. heap (snd (copy_from_shared_context slots context w)) a =
             (if a \<in> set pre
              then (heap w a)\<lparr>shared_context_ref := the (context (filter_id (heap w a)))\<rparr>
              else heap w a)"
    by (simp_all add: copy_from_shared_context_def invalid_runtime_filter_id_def)
  with g m pre show ?thesis by blast
qed

theorem copy_from_shared_context_missing_witness:
  "only_first_exported (filter_id (heap (world_of two_identities) 1)) = None \<and>
   (\<exists>pre m rest. runtime_filters (slots_of [0, 0] [0, 1]) = pre @ m # rest \<and>
      fst (copy_from_shared_context (slots_of [0, 0] [0, 1]) only_first_exported
            (world_of two_identities)) =
        Aborted (''invalid runtime filter id: '' @
                 dec_int (filter_id (heap (world_of two_identities) m))) \<and>
      (\<forall>a. heap (snd (copy_from_shared_context (slots_of [0, 0] [0, 1]) only_first_exported
                       (world_of two_identities))) a =
         (if a \<in> set pre
          then (heap (world_of two_identities) a)\<lparr>shared_context_ref :=
                 the (only_first_exported (filter_id (heap (world_of two_identities) a)))\<rparr>
          else heap (world_of two_identities) a)))"
proof -
  have n: "only_first_exported (filter_id (heap (world_of two_identities) 1)) = None"
    by (simp add: only_first_exported_def world_of_def heap_of_def two_identities_def
        mk_filter_def)
  have "1 \<in> set (runtime_filters (slots_of [0, 0] [0, 1]))"
    by (simp add: slots_of_def)
  with n have "\<exists>a\<in>set (runtime_filters (slots_of [0, 0] [0, 1])).
      only_first_exported (filter_id (heap (world_of two_identities) a)) = None"
    by blast
  from copy_from_shared_context_missing [OF this] n show ?thesis by blast
qed

text \<open>
  The claim as written fails on the partial import: the identity 2 is missing, the call
  fails naming it, and the handle with the identity 1 has taken the shared reference 9.
\<close>

theorem partial_import_on_failure:
  "fst (copy_from_shared_context (slots_of [0, 0] [0, 1]) only_first_exported
         (world_of two_identities)) = Aborted ''invalid runtime filter id: 2'' \<and>
   shared_context_ref (heap (world_of two_identities) 0) = 0 \<and>
   shared_context_ref (heap (snd (copy_from_shared_context (slots_of [0, 0] [0, 1])
         only_first_exported (world_of two_identities))) 0) = 9"
  by (simp add: copy_from_shared_context_def slots_of_def world_of_def heap_of_def
      two_identities_def mk_filter_def only_first_exported_def invalid_runtime_filter_id_def
      dec_int_def dec_nat.simps [of 2])

section \<open>Redundancy pruning\<close>

lemma heap_set_disabled [simp]:
  "heap (set_disabled x w) a = (if a = x then (heap w x)\<lparr>disabled := True\<rparr> else heap w a)"
  by (simp add: set_disabled_def)

lemma countable_in_disabled [simp]: "\<not> countable_in (f\<lparr>disabled := True\<rparr>)"
  by (simp add: countable_in_def active_in_def active_def)

lemma filters_on_Cons:
  "filters_on P w e (x # as) =
     (if P (heap w x) \<and> expr_order (heap w x) = e then x # filters_on P w e as
      else filters_on P w e as)"
  by (simp add: filters_on_def)

lemma filters_on_set_disabled:
  "x \<notin> set as \<Longrightarrow> filters_on P (set_disabled x w) e as = filters_on P w e as"
  unfolding filters_on_def by (rule filter_cong) auto

lemma repeats_skip:
  assumes "\<not> countable_in (heap w x)"
  shows "repeats has w (x # as) a = repeats has w as a"
  using assms by (auto simp: repeats_def filters_on_Cons)

lemma repeats_seen:
  assumes "countable_in (heap w x)" and "expr_order (heap w x) \<in> has" and "x \<notin> set as"
  shows "repeats has w (x # as) a = (a = x \<or> repeats has (set_disabled x w) as a)"
proof (cases "a = x")
  case True
  with assms show ?thesis by (simp add: repeats_def)
next
  case False
  have f: "filters_on countable_in (set_disabled x w) e as = filters_on countable_in w e as" for e
    using assms(3) by (rule filters_on_set_disabled)
  show ?thesis
  proof (cases "expr_order (heap w a) = expr_order (heap w x)")
    case True
    with False assms show ?thesis by (simp add: repeats_def)
  next
    case ne: False
    with False show ?thesis by (simp add: repeats_def f filters_on_Cons)
  qed
qed

lemma repeats_first:
  assumes "countable_in (heap w x)" and "expr_order (heap w x) \<notin> has" and "x \<notin> set as"
  shows "repeats has w (x # as) a = repeats (insert (expr_order (heap w x)) has) w as a"
proof (cases "a = x")
  case True
  with assms show ?thesis by (simp add: repeats_def filters_on_Cons)
next
  case False
  then show ?thesis
    using assms by (cases "expr_order (heap w a) = expr_order (heap w x)")
      (auto simp: repeats_def filters_on_Cons)
qed

lemma dedup_in_filters_step:
  "dedup_in_filters (x # as) has w =
     (if \<not> countable_in (heap w x) then dedup_in_filters as has w
      else if expr_order (heap w x) \<in> has then dedup_in_filters as has (set_disabled x w)
      else dedup_in_filters as (insert (expr_order (heap w x)) has) w)"
  by (auto simp: countable_in_def active_in_def active_def)

lemma dedup_in_filters_effect:
  assumes "distinct as"
  shows "fst (dedup_in_filters as has w) =
           has \<union> (\<lambda>a. expr_order (heap w a)) ` {a \<in> set as. countable_in (heap w a)} \<and>
         heap (snd (dedup_in_filters as has w)) a =
           (if repeats has w as a then (heap w a)\<lparr>disabled := True\<rparr> else heap w a)"
  using assms
proof (induction as arbitrary: has w)
  case Nil
  show ?case by (simp add: repeats_def)
next
  case (Cons x as)
  from Cons.prems have x: "x \<notin> set as" and d: "distinct as" by simp_all
  note IH = Cons.IH [OF d]
  show ?case
  proof (cases "countable_in (heap w x)")
    case False
    have "{a \<in> set (x # as). countable_in (heap w a)} = {a \<in> set as. countable_in (heap w a)}"
      using False by auto
    with False IH [of has w] show ?thesis
      by (simp only: dedup_in_filters_step repeats_skip [OF False]) simp
  next
    case c: True
    show ?thesis
    proof (cases "expr_order (heap w x) \<in> has")
      case True
      let ?w2 = "set_disabled x w"
      have s: "{a \<in> set as. countable_in (heap ?w2 a)} = {a \<in> set as. countable_in (heap w a)}"
        using x by auto
      have i: "(\<lambda>a. expr_order (heap ?w2 a)) ` {a \<in> set as. countable_in (heap w a)} =
               (\<lambda>a. expr_order (heap w a)) ` {a \<in> set as. countable_in (heap w a)}"
        using x by (intro image_cong) auto
      have k: "has \<union> (\<lambda>a. expr_order (heap w a)) ` {a \<in> set (x # as). countable_in (heap w a)}
             = has \<union> (\<lambda>a. expr_order (heap w a)) ` {a \<in> set as. countable_in (heap w a)}"
        using True by auto
      have r: "\<not> repeats has ?w2 as x"
        using x by (simp add: repeats_def)
      from IH [of has ?w2] have
        f: "fst (dedup_in_filters as has ?w2) =
              has \<union> (\<lambda>a. expr_order (heap w a)) ` {a \<in> set as. countable_in (heap w a)}"
        and h: "heap (snd (dedup_in_filters as has ?w2)) a =
              (if repeats has ?w2 as a then (heap ?w2 a)\<lparr>disabled := True\<rparr> else heap ?w2 a)"
        by (simp_all only: s i)
      have st: "dedup_in_filters (x # as) has w = dedup_in_filters as has ?w2"
        using c True by (simp only: dedup_in_filters_step) simp
      show ?thesis
        unfolding st repeats_seen [OF c True x] k
        using f h r by (cases "a = x") auto
    next
      case False
      have k: "insert (expr_order (heap w x)) has \<union>
                 (\<lambda>a. expr_order (heap w a)) ` {a \<in> set as. countable_in (heap w a)}
             = has \<union> (\<lambda>a. expr_order (heap w a)) ` {a \<in> set (x # as). countable_in (heap w a)}"
        using c by auto
      have st: "dedup_in_filters (x # as) has w =
                  dedup_in_filters as (insert (expr_order (heap w x)) has) w"
        using c False by (simp only: dedup_in_filters_step) simp
      show ?thesis
        unfolding st repeats_first [OF c False x]
        using IH [of "insert (expr_order (heap w x)) has" w] k by simp
    qed
  qed
qed

lemma disable_dominated_effect:
  "heap (disable_dominated as has w) a = heap w a \<or>
   (real_type (heap w a) \<noteq> IN_FILTER \<and>
    heap (disable_dominated as has w) a = (heap w a)\<lparr>disabled := True\<rparr>)"
proof (induction as arbitrary: w)
  case Nil
  show ?case by simp
next
  case (Cons x as)
  show ?case
    using Cons.IH [of w] Cons.IH [of "set_disabled x w"]
    by (cases "a = x") auto
qed

lemma disable_dominated_countable:
  "countable_in (heap (disable_dominated as has w) a) = countable_in (heap w a) \<and>
   expr_order (heap (disable_dominated as has w) a) = expr_order (heap w a)"
  using disable_dominated_effect [of as has w a]
  by (auto simp: countable_in_def active_in_def active_def)

lemma filter_first_only:
  "distinct xs \<Longrightarrow> filter (\<lambda>a. a \<in> set (take 1 xs)) xs = take 1 xs"
  by (cases xs) (auto intro: filter_False)

lemma take_drop_disjoint:
  "distinct xs \<Longrightarrow> a \<in> set (drop 1 xs) \<Longrightarrow> a \<in> set xs \<and> a \<notin> set (take 1 xs)"
  by (cases xs) auto

text \<open>
  C6, as the source has it. In the first pass over a group of distinct handles, an active
  membership-set filter is counted unless it needs no size synchronisation and is declared
  hybrid; a filter that needs size synchronisation is counted like any other. The
  expressions seen are those of the counted filters. A counted filter is left as it is
  when it is the first counted filter on its expression, and marked disabled otherwise;
  every other handle, the skipped hybrid filters among them, is left as it is.
\<close>

theorem dedup_in_filters_counts:
  assumes "distinct as"
  shows "fst (dedup_in_filters as {} w) =
           (\<lambda>a. expr_order (heap w a)) ` {a \<in> set as. countable_in (heap w a)} \<and>
         (\<forall>a. heap (snd (dedup_in_filters as {} w)) a =
           (if a \<in> set as \<and> countable_in (heap w a) \<and>
               a \<notin> set (take 1 (filters_on countable_in w (expr_order (heap w a)) as))
            then (heap w a)\<lparr>disabled := True\<rparr> else heap w a))"
  using dedup_in_filters_effect [OF assms, of "{}" w]
  by (simp add: repeats_def)

theorem dedup_in_filters_counts_witness:
  "distinct [0, 1, 2, 3::nat] \<and>
   fst (dedup_in_filters [0, 1, 2, 3] {} (world_of in_triple)) =
     (\<lambda>a. expr_order (heap (world_of in_triple) a)) `
       {a \<in> set [0, 1, 2, 3]. countable_in (heap (world_of in_triple) a)} \<and>
   heap (snd (dedup_in_filters [0, 1, 2, 3] {} (world_of in_triple))) 1 =
     (heap (world_of in_triple) 1)\<lparr>disabled := True\<rparr> \<and>
   heap (snd (dedup_in_filters [0, 1, 2, 3] {} (world_of in_triple))) 0 =
     heap (world_of in_triple) 0"
proof -
  have d: "distinct [0, 1, 2, 3::nat]" by simp
  have c: "countable_in (heap (world_of in_triple) 1)"
    by (simp add: world_of_def heap_of_def in_triple_def mk_filter_def countable_in_def
        active_in_def active_def)
  have f: "filters_on countable_in (world_of in_triple)
             (expr_order (heap (world_of in_triple) 1)) [0, 1, 2, 3] = [0, 1, 3]"
    by (simp add: world_of_def heap_of_def in_triple_def mk_filter_def countable_in_def
        active_in_def active_def filters_on_def)
  have g: "filters_on countable_in (world_of in_triple)
             (expr_order (heap (world_of in_triple) 0)) [0, 1, 2, 3] = [0, 1, 3]"
    by (simp add: world_of_def heap_of_def in_triple_def mk_filter_def countable_in_def
        active_in_def active_def filters_on_def)
  note t = dedup_in_filters_counts [OF d, of "world_of in_triple"]
  note t1 = t [THEN conjunct1]
  note t2 = t [THEN conjunct2, THEN spec]
  have c1: "1 \<in> set [0, 1, 2, 3::nat] \<and> countable_in (heap (world_of in_triple) 1) \<and>
      1 \<notin> set (take 1 (filters_on countable_in (world_of in_triple)
                  (expr_order (heap (world_of in_triple) 1)) [0, 1, 2, 3]))"
    unfolding f using c by simp
  have c0: "\<not> (0 \<in> set [0, 1, 2, 3::nat] \<and> countable_in (heap (world_of in_triple) 0) \<and>
      0 \<notin> set (take 1 (filters_on countable_in (world_of in_triple)
                  (expr_order (heap (world_of in_triple) 0)) [0, 1, 2, 3])))"
    unfolding g by simp
  have h1: "heap (snd (dedup_in_filters [0, 1, 2, 3] {} (world_of in_triple))) 1 =
     (heap (world_of in_triple) 1)\<lparr>disabled := True\<rparr>"
    using t2 [of 1] by (simp only: c1 simp_thms if_True)
  have h0: "heap (snd (dedup_in_filters [0, 1, 2, 3] {} (world_of in_triple))) 0 =
     heap (world_of in_triple) 0"
    using t2 [of 0] by (simp only: c0 if_False)
  show ?thesis by (intro conjI d t1 h1 h0)
qed

text \<open>
  The claim as written fails on a hybrid filter that needs no size synchronisation: it is
  an active membership-set filter, and the first pass neither records its expression nor
  disables it; the filter that does need size synchronisation is the one recorded.
\<close>

theorem hybrid_without_sync_not_counted:
  "active_in (heap (world_of local_and_synced) 0) \<and>
   \<not> need_sync_filter_size (heap (world_of local_and_synced) 0) \<and>
   expr_order (heap (world_of local_and_synced) 0) = 0 \<and>
   active_in (heap (world_of local_and_synced) 1) \<and>
   need_sync_filter_size (heap (world_of local_and_synced) 1) \<and>
   expr_order (heap (world_of local_and_synced) 1) = 1 \<and>
   fst (dedup_in_filters [0, 1] {} (world_of local_and_synced)) = {1} \<and>
   \<not> disabled (heap (snd (dedup_in_filters [0, 1] {} (world_of local_and_synced))) 0)"
  by (simp add: world_of_def heap_of_def local_and_synced_def mk_filter_def active_in_def
      active_def)

lemma disable_dominated_exact:
  "heap (disable_dominated as has w) a =
     (if a \<in> set as \<and> active (heap w a) \<and> real_type (heap w a) \<noteq> IN_FILTER \<and>
         expr_order (heap w a) \<in> has
      then (heap w a)\<lparr>disabled := True\<rparr> else heap w a)"
proof (induction as arbitrary: w)
  case Nil
  show ?case by simp
next
  case (Cons x as)
  show ?case
  proof (cases "active (heap w x) \<and> real_type (heap w x) \<noteq> IN_FILTER \<and>
                expr_order (heap w x) \<in> has")
    case True
    then have st: "disable_dominated (x # as) has w = disable_dominated as has (set_disabled x w)"
      by (auto simp: active_def)
    show ?thesis
      unfolding st using Cons.IH [of "set_disabled x w"] True
      by (cases "a = x") (auto simp: active_def)
  next
    case False
    then have st: "disable_dominated (x # as) has w = disable_dominated as has w"
      by (auto simp: active_def)
    show ?thesis
      unfolding st using Cons.IH [of w] False
      by (cases "a = x") auto
  qed
qed

text \<open>
  C1, as the source has it. After \<^verbatim>\<open>disable_meaningless_filters\<close> on a group of
  distinct handles, for every expression, the counted membership-set filters on it that
  are still active are the first of those that were active before, if there was one: at
  most one remains, exactly one when there were \<open>k \<ge> 1\<close>, the first in group order, and
  the other \<open>k - 1\<close> are disabled. (Counted: active, of effective type \<open>IN_FILTER\<close>, and
  not a hybrid filter without size synchronisation.) Every handle's state after the call
  is given: disabled are the counted filters of the group that are not the first counted
  one on their expression, and the active filters of the group, of another effective type,
  on an expression that has a counted filter; every other handle is as it was. So an
  active membership-set filter that is not counted, a hybrid one without size
  synchronisation, is left as it is. No call is made on a collaborator.
\<close>

theorem disable_meaningless_filters_keeps_first:
  assumes "distinct (runtime_filters slots)"
  shows "fst (disable_meaningless_filters slots w) = OK \<and>
         filters_on countable_in (snd (disable_meaningless_filters slots w)) e
             (runtime_filters slots) =
           take 1 (filters_on countable_in w e (runtime_filters slots)) \<and>
         (\<forall>a\<in>set (drop 1 (filters_on countable_in w e (runtime_filters slots))).
             disabled (heap (snd (disable_meaningless_filters slots w)) a)) \<and>
         (\<forall>a. heap (snd (disable_meaningless_filters slots w)) a =
            (if a \<in> set (runtime_filters slots) \<and>
                (countable_in (heap w a) \<and>
                   a \<notin> set (take 1 (filters_on countable_in w (expr_order (heap w a))
                                        (runtime_filters slots))) \<or>
                 active (heap w a) \<and> real_type (heap w a) \<noteq> IN_FILTER \<and>
                   (\<exists>c\<in>set (runtime_filters slots).
                      countable_in (heap w c) \<and> expr_order (heap w c) = expr_order (heap w a)))
             then (heap w a)\<lparr>disabled := True\<rparr> else heap w a)) \<and>
         (\<forall>a. active_in (heap w a) \<and> \<not> countable_in (heap w a) \<longrightarrow>
            heap (snd (disable_meaningless_filters slots w)) a = heap w a) \<and>
         trace (snd (disable_meaningless_filters slots w)) = trace w"
proof -
  let ?g = "runtime_filters slots"
  let ?p1 = "dedup_in_filters ?g {} w"
  let ?w1 = "snd ?p1"
  let ?w' = "disable_dominated ?g (fst ?p1) ?w1"
  let ?cand = "filters_on countable_in w e ?g"
  have w': "disable_meaningless_filters slots w = (OK, ?w')"
    by (simp add: disable_meaningless_filters_def split_beta)
  have h1: "heap ?w1 a = (if repeats {} w ?g a then (heap w a)\<lparr>disabled := True\<rparr> else heap w a)"
    for a using dedup_in_filters_effect [OF assms, of "{}" w a] by simp
  have has: "fst ?p1 = (\<lambda>a. expr_order (heap w a)) ` {a \<in> set ?g. countable_in (heap w a)}"
    using dedup_in_filters_effect [OF assms, of "{}" w] by simp
  have dc: "distinct ?cand"
    using assms by (simp add: filters_on_def)
  have key: "countable_in (heap ?w' a) \<and> expr_order (heap ?w' a) = e \<longleftrightarrow>
             (countable_in (heap w a) \<and> expr_order (heap w a) = e) \<and> a \<in> set (take 1 ?cand)"
    if a: "a \<in> set ?g" for a
  proof -
    have "countable_in (heap ?w' a) = countable_in (heap ?w1 a)"
      and e: "expr_order (heap ?w' a) = expr_order (heap w a)"
      using disable_dominated_countable [of ?g "fst ?p1" ?w1 a] h1 [of a] by auto
    moreover have "countable_in (heap ?w1 a) \<longleftrightarrow> countable_in (heap w a) \<and> \<not> repeats {} w ?g a"
      using h1 [of a] by auto
    moreover have "a \<in> set (take 1 ?cand) \<Longrightarrow> expr_order (heap w a) = e \<and> countable_in (heap w a)"
      using in_set_takeD [of a 1 ?cand] by (auto simp: filters_on_def)
    ultimately show ?thesis
      using a by (auto simp: repeats_def)
  qed
  have "filters_on countable_in ?w' e ?g =
          filter (\<lambda>a. (countable_in (heap w a) \<and> expr_order (heap w a) = e) \<and>
                       a \<in> set (take 1 ?cand)) ?g"
    unfolding filters_on_def
    by (rule filter_cong [OF refl]) (use key [unfolded filters_on_def] in blast)
  also have "\<dots> = filter (\<lambda>a. a \<in> set (take 1 ?cand)) ?cand"
    by (simp add: filters_on_def)
  also have "\<dots> = take 1 ?cand"
    using dc by (rule filter_first_only)
  finally have first: "filters_on countable_in ?w' e ?g = take 1 ?cand" .
  have rest: "disabled (heap ?w' a)" if "a \<in> set (drop 1 ?cand)" for a
  proof -
    from take_drop_disjoint [OF dc that] have c: "a \<in> set ?cand" and n: "a \<notin> set (take 1 ?cand)"
      by simp_all
    from c have "a \<in> set ?g" and "countable_in (heap w a)" and "expr_order (heap w a) = e"
      by (simp_all add: filters_on_def)
    with n have "repeats {} w ?g a" by (simp add: repeats_def)
    with h1 [of a] have "disabled (heap ?w1 a)" by simp
    moreover have "flags_kept ?w1 ?w'" using disable_dominated_keeps by blast
    ultimately show ?thesis by (simp add: flags_kept_def)
  qed
  have exact: "heap ?w' a =
      (if a \<in> set ?g \<and>
          (countable_in (heap w a) \<and>
             a \<notin> set (take 1 (filters_on countable_in w (expr_order (heap w a)) ?g)) \<or>
           active (heap w a) \<and> real_type (heap w a) \<noteq> IN_FILTER \<and>
             (\<exists>c\<in>set ?g. countable_in (heap w c) \<and>
                expr_order (heap w c) = expr_order (heap w a)))
       then (heap w a)\<lparr>disabled := True\<rparr> else heap w a)" for a
  proof (cases "repeats {} w ?g a")
    case True
    then have r: "a \<in> set ?g" "countable_in (heap w a)"
      "a \<notin> set (take 1 (filters_on countable_in w (expr_order (heap w a)) ?g))"
      by (simp_all add: repeats_def)
    from True h1 [of a] have "heap ?w1 a = (heap w a)\<lparr>disabled := True\<rparr>" by simp
    then have "heap ?w' a = (heap w a)\<lparr>disabled := True\<rparr>"
      by (simp add: disable_dominated_exact [of ?g "fst ?p1" ?w1 a] active_def)
    with r show ?thesis by simp
  next
    case False
    with h1 [of a] have same: "heap ?w1 a = heap w a" by simp
    have in_has: "expr_order (heap w a) \<in> fst ?p1 \<longleftrightarrow>
        (\<exists>c\<in>set ?g. countable_in (heap w c) \<and> expr_order (heap w c) = expr_order (heap w a))"
      unfolding has image_iff by (simp add: Bex_def) metis
    have nc: "real_type (heap w a) \<noteq> IN_FILTER \<Longrightarrow> \<not> countable_in (heap w a)"
      by (simp add: countable_in_def active_in_def)
    from False have nr: "\<not> (a \<in> set ?g \<and> countable_in (heap w a) \<and>
        a \<notin> set (take 1 (filters_on countable_in w (expr_order (heap w a)) ?g)))"
      by (simp add: repeats_def)
    show ?thesis
      unfolding disable_dominated_exact [of ?g "fst ?p1" ?w1 a] same in_has
      using nr nc by auto
  qed
  have untouched: "heap ?w' a = heap w a"
    if "active_in (heap w a) \<and> \<not> countable_in (heap w a)" for a
    using exact [of a] that by (simp add: active_in_def)
  have tr: "trace ?w' = trace w"
    using disable_dominated_keeps [of ?w1 ?g "fst ?p1"] dedup_in_filters_keeps [of w ?g "{}"]
    by simp
  from first rest exact untouched tr show ?thesis unfolding w' fst_conv snd_conv by blast
qed

theorem disable_meaningless_filters_keeps_first_witness:
  "distinct (runtime_filters (slots_of [0] [0, 1, 2, 3])) \<and>
   filters_on countable_in (world_of mixed_four) 0 (runtime_filters (slots_of [0] [0, 1, 2, 3]))
     = [0, 2] \<and>
   filters_on countable_in
       (snd (disable_meaningless_filters (slots_of [0] [0, 1, 2, 3]) (world_of mixed_four))) 0
       (runtime_filters (slots_of [0] [0, 1, 2, 3])) = [0] \<and>
   disabled (heap (snd (disable_meaningless_filters (slots_of [0] [0, 1, 2, 3])
       (world_of mixed_four))) 2) \<and>
   active_in (heap (world_of mixed_four) 1) \<and>
   heap (snd (disable_meaningless_filters (slots_of [0] [0, 1, 2, 3]) (world_of mixed_four))) 1
     = heap (world_of mixed_four) 1"
proof -
  let ?S = "slots_of [0] [0, 1, 2, 3]"
  let ?W = "world_of mixed_four"
  have d: "distinct (runtime_filters ?S)"
    by (simp add: slots_of_def)
  have f: "filters_on countable_in ?W 0 (runtime_filters ?S) = [0, 2]"
    by (simp add: world_of_def heap_of_def mixed_four_def mk_filter_def countable_in_def
        active_in_def active_def filters_on_def slots_of_def)
  have a1: "active_in (heap ?W 1)" and n1: "\<not> countable_in (heap ?W 1)"
    by (simp_all add: world_of_def heap_of_def mixed_four_def mk_filter_def countable_in_def
        active_in_def active_def)
  note t = disable_meaningless_filters_keeps_first [OF d, of ?W 0]
  from t have k: "filters_on countable_in (snd (disable_meaningless_filters ?S ?W)) 0
       (runtime_filters ?S) = take 1 (filters_on countable_in ?W 0 (runtime_filters ?S))"
    by (rule conjunct1 [OF conjunct2])
  from t have r: "\<forall>a\<in>set (drop 1 (filters_on countable_in ?W 0 (runtime_filters ?S))).
       disabled (heap (snd (disable_meaningless_filters ?S ?W)) a)"
    by (rule conjunct1 [OF conjunct2 [OF conjunct2]])
  from t have u: "\<forall>a. active_in (heap ?W a) \<and> \<not> countable_in (heap ?W a) \<longrightarrow>
       heap (snd (disable_meaningless_filters ?S ?W)) a = heap ?W a"
    by (rule conjunct1 [OF conjunct2 [OF conjunct2 [OF conjunct2 [OF conjunct2]]]])
  have k': "filters_on countable_in (snd (disable_meaningless_filters ?S ?W)) 0
       (runtime_filters ?S) = [0]"
    using k unfolding f by simp
  have r': "disabled (heap (snd (disable_meaningless_filters ?S ?W)) 2)"
    using r unfolding f by simp
  have u': "heap (snd (disable_meaningless_filters ?S ?W)) 1 = heap ?W 1"
    using u [THEN spec, of 1] a1 n1 by (simp only: simp_thms)
  show ?thesis by (intro conjI d f k' r' a1 u')
qed

text \<open>
  The claim as written fails on the hybrid filters that need no size synchronisation: two
  of them on expression 0 are both still active membership-set filters after the pruning.
\<close>

theorem two_active_in_filters_remain:
  "filters_on active_in
     (snd (disable_meaningless_filters (slots_of [0] [0, 1]) (world_of hybrid_local_pair))) 0
     (runtime_filters (slots_of [0] [0, 1])) = [0, 1]"
  by (simp add: disable_meaningless_filters_def slots_of_def world_of_def heap_of_def
      hybrid_local_pair_def mk_filter_def filters_on_def active_in_def active_def)

text \<open>
  Why the handles are taken to be distinct: the group holds pointers, and a handle listed
  twice is recorded at its first place and disabled at its second, so that no counted
  filter on its expression remains.
\<close>

lemma handle_listed_twice_disables_itself:
  "filters_on countable_in (world_of in_triple) 0 [0, 0] = [0, 0] \<and>
   filters_on countable_in
     (snd (disable_meaningless_filters (slots_of [0] [0, 0]) (world_of in_triple))) 0 [0, 0] = []"
  by (simp add: disable_meaningless_filters_def slots_of_def world_of_def heap_of_def
      in_triple_def mk_filter_def filters_on_def countable_in_def active_in_def active_def)

section \<open>Materialisation\<close>

lemma retyped_refl [simp]: "retyped state n w w"
  by (simp add: retyped_def)

lemma over_threshold_real_type [simp]:
  "over_threshold state n (f\<lparr>real_type := t\<rparr>) = over_threshold state n f"
  by (simp add: over_threshold_def get_real_size_def)

lemma retyped_fields:
  assumes "retyped state n w w'"
  shows "ignored (heap w' b) = ignored (heap w b)"
    and "over_threshold state n (heap w' b) = over_threshold state n (heap w b)"
    and "get_real_size (heap w' b) m = get_real_size (heap w b) m"
    and "real_type (heap w b) = BLOOM_FILTER \<Longrightarrow> real_type (heap w' b) = BLOOM_FILTER"
  using assms [unfolded retyped_def, THEN spec, of b]
  by (auto simp: get_real_size_def)

lemma retyped_trans:
  assumes "retyped state n w w1" and "retyped state n w1 w2"
  shows "retyped state n w w2"
  unfolding retyped_def
proof
  fix b
  from assms(1) have 1: "heap w1 b = heap w b \<or>
      (\<not> ignored (heap w b) \<and> over_threshold state n (heap w b) \<and>
       heap w1 b = (heap w b)\<lparr>real_type := BLOOM_FILTER\<rparr>)"
    by (simp add: retyped_def)
  from assms(2) have 2: "heap w2 b = heap w1 b \<or>
      (\<not> ignored (heap w1 b) \<and> over_threshold state n (heap w1 b) \<and>
       heap w2 b = (heap w1 b)\<lparr>real_type := BLOOM_FILTER\<rparr>)"
    by (simp add: retyped_def)
  from 1 2 show "heap w2 b = heap w b \<or>
      (\<not> ignored (heap w b) \<and> over_threshold state n (heap w b) \<and>
       heap w2 b = (heap w b)\<lparr>real_type := BLOOM_FILTER\<rparr>)"
    by auto
qed

lemma calls_since_append:
  "trace w1 = trace w @ c1 \<Longrightarrow> trace w2 = trace w1 @ c2 \<Longrightarrow>
     calls_since w w1 = c1 \<and> calls_since w w2 = c1 @ c2 \<and> calls_since w1 w2 = c2"
  by (simp add: calls_since_def)

lemma init_filter_effect:
  assumes "init_filter orc state n a w = (st, w1)" and "\<not> ignored (heap w a)"
  shows "retyped state n w w1"
    and "\<exists>calls. trace w1 = trace w @ calls"
    and "st = OK \<Longrightarrow> over_threshold state n (heap w a) \<Longrightarrow> real_type (heap w1 a) = BLOOM_FILTER"
    and "st = OK \<Longrightarrow> real_type (heap w1 a) = BLOOM_FILTER \<Longrightarrow>
           Rf_init_bloom_filter a (get_real_size (heap w a) n) \<in> set (calls_since w w1)"
proof -
  let ?over = "filter_type (heap w a) = IN_OR_BLOOM_FILTER \<and>
               get_real_size (heap w a) n > runtime_filter_max_in_num state"
  define c where "c = (if ?over then change_to_bloom_filter orc a w else (OK, w))"
  define wc where "wc = snd c"
  have c_heap: "heap wc = heap w \<or>
      (?over \<and> fst c = OK \<and> heap wc = (heap w)(a := (heap w a)\<lparr>real_type := BLOOM_FILTER\<rparr>))"
    by (auto simp: wc_def c_def change_to_bloom_filter_def rf_call_def)
  have c_ok: "fst c = OK \<Longrightarrow> ?over \<Longrightarrow>
      heap wc = (heap w)(a := (heap w a)\<lparr>real_type := BLOOM_FILTER\<rparr>)"
    by (auto simp: wc_def c_def change_to_bloom_filter_def rf_call_def)
  have c_trace: "\<exists>calls. trace wc = trace w @ calls"
    by (auto simp: wc_def c_def change_to_bloom_filter_def rf_call_def)
  have size: "get_real_size (heap wc a) n = get_real_size (heap w a) n"
    using c_heap by (auto simp: get_real_size_def)
  have "init_filter orc state n a w =
      (let (st1, w1) = c
       in if st1 \<noteq> OK then (st1, w1)
          else if real_type (heap w1 a) = BLOOM_FILTER
            then init_bloom_filter orc a (get_real_size (heap w1 a) n) w1
          else (OK, w1))"
    unfolding init_filter_def c_def by (rule refl)
  with assms(1) have res: "(st, w1) =
      (if fst c \<noteq> OK then (fst c, wc)
       else if real_type (heap wc a) = BLOOM_FILTER
         then init_bloom_filter orc a (get_real_size (heap w a) n) wc
       else (OK, wc))"
    by (auto simp: split_beta wc_def [symmetric] size split: if_splits)
  have w1_heap: "heap w1 = heap wc"
    using res by (auto simp: init_bloom_filter_def rf_call_def split: if_splits)
  show "retyped state n w w1"
    unfolding retyped_def w1_heap using c_heap assms(2)
    by (auto simp: over_threshold_def split: if_splits)
  from c_trace obtain cs where cs: "trace wc = trace w @ cs" by blast
  have w1_trace: "trace w1 = trace wc \<or>
      (fst c = OK \<and> real_type (heap wc a) = BLOOM_FILTER \<and>
       trace w1 = trace wc @ [Rf_init_bloom_filter a (get_real_size (heap w a) n)])"
    using res by (auto simp: init_bloom_filter_def rf_call_def split: if_splits)
  then show "\<exists>calls. trace w1 = trace w @ calls"
    using cs by auto
  have st_ok: "st = OK \<Longrightarrow> fst c = OK"
    using res by (auto split: if_splits)
  show "real_type (heap w1 a) = BLOOM_FILTER"
    if "st = OK" and "over_threshold state n (heap w a)"
    using c_ok [OF st_ok [OF that(1)]] that(2) w1_heap by (simp add: over_threshold_def)
  show "Rf_init_bloom_filter a (get_real_size (heap w a) n) \<in> set (calls_since w w1)"
    if "st = OK" and "real_type (heap w1 a) = BLOOM_FILTER"
  proof -
    from that(2) w1_heap have b: "real_type (heap wc a) = BLOOM_FILTER" by simp
    with res st_ok [OF that(1)]
    have "trace w1 = trace wc @ [Rf_init_bloom_filter a (get_real_size (heap w a) n)]"
      by (simp add: init_bloom_filter_def rf_call_def)
    with cs show ?thesis by (simp add: calls_since_def)
  qed
qed

lemma init_each_effect:
  assumes "init_each orc state n as w = (st, w')"
  shows "retyped state n w w' \<and> (\<exists>calls. trace w' = trace w @ calls) \<and>
    (st = OK \<longrightarrow>
      (\<forall>a\<in>set as. \<not> ignored (heap w a) \<longrightarrow>
         (over_threshold state n (heap w a) \<longrightarrow> real_type (heap w' a) = BLOOM_FILTER) \<and>
         (real_type (heap w' a) = BLOOM_FILTER \<longrightarrow>
            Rf_init_bloom_filter a (get_real_size (heap w a) n) \<in> set (calls_since w w'))))"
  using assms
proof (induction as arbitrary: w)
  case Nil
  then show ?case by auto
next
  case (Cons x as)
  show ?case
  proof (cases "ignored (heap w x)")
    case True
    with Cons.prems have "init_each orc state n as w = (st, w')" by simp
    from Cons.IH [OF this] True show ?thesis by auto
  next
    case False
    obtain st1 w1 where s1: "init_filter orc state n x w = (st1, w1)"
      by (cases "init_filter orc state n x w")
    note step = init_filter_effect [OF s1 False]
    from step(2) obtain c1 where c1: "trace w1 = trace w @ c1" by blast
    show ?thesis
    proof (cases "st1 = OK")
      case False
      with Cons.prems \<open>\<not> ignored (heap w x)\<close> s1 have "st = st1" and "w' = w1" by auto
      with False step(1) c1 show ?thesis by auto
    next
      case True
      with Cons.prems \<open>\<not> ignored (heap w x)\<close> s1
      have rest: "init_each orc state n as w1 = (st, w')" by auto
      note IH = Cons.IH [OF rest]
      from IH have r1: "retyped state n w1 w'" by blast
      from IH obtain c2 where c2: "trace w' = trace w1 @ c2" by blast
      note cs = calls_since_append [OF c1 c2]
      have r: "retyped state n w w'"
        using step(1) r1 by (rule retyped_trans)
      have t: "\<exists>calls. trace w' = trace w @ calls"
        using c1 c2 by simp
      have main: "(over_threshold state n (heap w a) \<longrightarrow> real_type (heap w' a) = BLOOM_FILTER) \<and>
         (real_type (heap w' a) = BLOOM_FILTER \<longrightarrow>
            Rf_init_bloom_filter a (get_real_size (heap w a) n) \<in> set (calls_since w w'))"
        if ok: "st = OK" and a: "a \<in> set (x # as)" and ni: "\<not> ignored (heap w a)" for a
      proof (cases "a = x")
        case ax: True
        have o: "real_type (heap w' x) = BLOOM_FILTER" if "over_threshold state n (heap w x)"
          using step(3) [OF True that] retyped_fields(4) [OF r1] by blast
        have i: "Rf_init_bloom_filter x (get_real_size (heap w x) n) \<in> set (calls_since w w')"
          if b: "real_type (heap w' x) = BLOOM_FILTER"
        proof -
          have "real_type (heap w1 x) = BLOOM_FILTER"
          proof (rule ccontr)
            assume nb: "real_type (heap w1 x) \<noteq> BLOOM_FILTER"
            with b r1 [unfolded retyped_def, THEN spec, of x]
            have "over_threshold state n (heap w1 x)" by auto
            then have "over_threshold state n (heap w x)"
              by (simp only: retyped_fields(2) [OF step(1)])
            from step(3) [OF True this] nb show False by simp
          qed
          from step(4) [OF True this] cs show ?thesis by auto
        qed
        from o i ax show ?thesis by simp
      next
        case False
        with a have as: "a \<in> set as" by simp
        from ni have ni1: "\<not> ignored (heap w1 a)"
          by (simp add: retyped_fields(1) [OF step(1)])
        from IH ok as ni1 have
          "(over_threshold state n (heap w1 a) \<longrightarrow> real_type (heap w' a) = BLOOM_FILTER) \<and>
           (real_type (heap w' a) = BLOOM_FILTER \<longrightarrow>
             Rf_init_bloom_filter a (get_real_size (heap w1 a) n) \<in> set (calls_since w1 w'))"
          by blast
        then show ?thesis
          using cs by (simp add: retyped_fields(2,3) [OF step(1)])
      qed
      from r t main show ?thesis by blast
    qed
  qed
qed

text \<open>
  C5. Let \<^verbatim>\<open>init_filters\<close> run on a handle of the group that is not ignored, and let
  the resolved size be \<^verbatim>\<open>get_real_size\<close> of the handle and the local cardinality.
  If the handle is declared hybrid and the resolved size exceeds
  \<^verbatim>\<open>runtime_filter_max_in_num\<close>, then, the run returning OK, its effective type is
  \<open>BLOOM_FILTER\<close> afterwards. Otherwise (a hybrid handle with the resolved size at most
  the threshold among them) its effective type is what it was. And, the run returning OK,
  a handle whose effective type is \<open>BLOOM_FILTER\<close> afterwards has received
  \<^verbatim>\<open>init_bloom_filter\<close> with the resolved size.
\<close>

theorem init_filters_materializes:
  assumes "a \<in> set (runtime_filters slots)" and "\<not> ignored (heap w a)"
    and "init_filters orc slots state n w = (st, w')"
    and "r = (if need_sync_filter_size (heap w a) then synced_size (heap w a) else n)"
  shows "(filter_type (heap w a) = IN_OR_BLOOM_FILTER \<and> r > runtime_filter_max_in_num state \<and>
            st = OK \<longrightarrow> real_type (heap w' a) = BLOOM_FILTER) \<and>
         (\<not> (filter_type (heap w a) = IN_OR_BLOOM_FILTER \<and> r > runtime_filter_max_in_num state)
            \<longrightarrow> real_type (heap w' a) = real_type (heap w a)) \<and>
         (st = OK \<and> real_type (heap w' a) = BLOOM_FILTER \<longrightarrow>
            Rf_init_bloom_filter a r \<in> set (calls_since w w'))"
proof -
  from assms(3) have e: "init_each orc state n (runtime_filters slots) w = (st, w')"
    by (simp add: init_filters_def)
  have r: "r = get_real_size (heap w a) n"
    using assms(4) by (simp add: get_real_size_def)
  have o: "over_threshold state n (heap w a) \<longleftrightarrow>
      filter_type (heap w a) = IN_OR_BLOOM_FILTER \<and>
      get_real_size (heap w a) n > runtime_filter_max_in_num state"
    by (simp add: over_threshold_def)
  note eff = init_each_effect [OF e]
  from eff have "retyped state n w w'" by blast
  then have stay: "\<not> over_threshold state n (heap w a) \<Longrightarrow>
      real_type (heap w' a) = real_type (heap w a)"
    unfolding retyped_def by (auto dest: spec [of _ a])
  from eff assms(1,2) have
    "st = OK \<Longrightarrow> over_threshold state n (heap w a) \<Longrightarrow> real_type (heap w' a) = BLOOM_FILTER"
    and "st = OK \<Longrightarrow> real_type (heap w' a) = BLOOM_FILTER \<Longrightarrow>
           Rf_init_bloom_filter a (get_real_size (heap w a) n) \<in> set (calls_since w w')"
    by blast+
  with stay show ?thesis unfolding o r by blast
qed


theorem init_filters_materializes_witness:
  "fst (init_filters always_ok (slots_of [0, 0, 0] [0, 1, 2]) \<lparr>runtime_filter_max_in_num = 1000\<rparr>
         500 (world_of hybrid_mix)) = OK \<and>
   real_type (heap (snd (init_filters always_ok (slots_of [0, 0, 0] [0, 1, 2])
         \<lparr>runtime_filter_max_in_num = 1000\<rparr> 500 (world_of hybrid_mix))) 0) = BLOOM_FILTER \<and>
   Rf_init_bloom_filter 0 4500 \<in> set (calls_since (world_of hybrid_mix)
      (snd (init_filters always_ok (slots_of [0, 0, 0] [0, 1, 2])
         \<lparr>runtime_filter_max_in_num = 1000\<rparr> 500 (world_of hybrid_mix)))) \<and>
   real_type (heap (snd (init_filters always_ok (slots_of [0, 0, 0] [0, 1, 2])
         \<lparr>runtime_filter_max_in_num = 1000\<rparr> 500 (world_of hybrid_mix))) 1) = IN_FILTER"
proof -
  let ?S = "slots_of [0, 0, 0] [0, 1, 2]"
  let ?T = "\<lparr>runtime_filter_max_in_num = 1000\<rparr>"
  let ?W = "world_of hybrid_mix"
  let ?X = "init_filters always_ok ?S ?T 500 ?W"
  have ok: "fst ?X = OK"
    by (simp add: init_filters_def slots_of_def world_of_def heap_of_def hybrid_mix_def
        mk_filter_def init_filter_def get_real_size_def change_to_bloom_filter_def
        init_bloom_filter_def rf_call_def always_ok_def)
  have x: "?X = (fst ?X, snd ?X)" by simp
  have m0: "0 \<in> set (runtime_filters ?S)" and m1: "1 \<in> set (runtime_filters ?S)"
    by (simp_all add: slots_of_def)
  have i0: "\<not> ignored (heap ?W 0)" and i1: "\<not> ignored (heap ?W 1)"
    by (simp_all add: world_of_def heap_of_def hybrid_mix_def mk_filter_def)
  have r0: "4500 = (if need_sync_filter_size (heap ?W 0) then synced_size (heap ?W 0) else 500)"
    and r1: "500 = (if need_sync_filter_size (heap ?W 1) then synced_size (heap ?W 1) else 500)"
    by (simp_all add: world_of_def heap_of_def hybrid_mix_def mk_filter_def)
  have t0: "filter_type (heap ?W 0) = IN_OR_BLOOM_FILTER"
    and t1: "real_type (heap ?W 1) = IN_FILTER"
    by (simp_all add: world_of_def heap_of_def hybrid_mix_def mk_filter_def)
  have gt: "(4500::uint64) > runtime_filter_max_in_num ?T"
    and le: "\<not> (500::uint64) > runtime_filter_max_in_num ?T"
    by simp_all
  note a0 = init_filters_materializes [OF m0 i0 x r0]
  note a1 = init_filters_materializes [OF m1 i1 x r1]
  from a0 t0 gt ok have b0: "real_type (heap (snd ?X) 0) = BLOOM_FILTER" by blast
  with a0 ok have c0: "Rf_init_bloom_filter 0 4500 \<in> set (calls_since ?W (snd ?X))" by blast
  from a1 le t1 have b1: "real_type (heap (snd ?X) 1) = IN_FILTER" by simp
  show ?thesis by (intro conjI ok b0 c0 b1)
qed

end
